theory Spec2Isabelle
  imports Main "HOL-Library.Word"
begin

unbundle bit_operations_syntax

section \<open>The handshake manager of src/core/lib/channel/handshaker.c\<close>

text \<open>
  The manager is a C struct that is mutated in place by a handful of functions and by
  three callbacks. The embedding is explicit state passing: one record \<open>state\<close> holds
  the fields of \<open>struct grpc_handshake_manager\<close>, the one \<open>grpc_handshaker_args\<close>
  object that \<open>grpc_handshake_manager_do_handshake\<close> allocates, and a trace of the
  calls the manager makes into its collaborators (handshaker vtables, the timer, the
  closure scheduler, the allocator). Every function of the source is a function
  \<open>state \<Rightarrow> fault + state\<close>, where \<open>Inl\<close> is an abort (\<open>GPR_ASSERT\<close>) or an access
  that C leaves undefined. Each call runs to its end before the next one starts, which is
  what the manager's mutex guarantees for the calls that take it.

  \<open>size_t\<close> is modelled by \<open>nat\<close>: the array holds \<open>count\<close> pointers, so \<open>count\<close> is
  bounded by the address space divided by the pointer size and \<open>mgr->count * 2\<close>
  cannot wrap; \<open>n - 1\<close> in \<open>is_power_of_2\<close> is only evaluated for \<open>n \<ge> 2\<close>.
  Allocation succeeds (\<open>gpr_malloc\<close> and \<open>gpr_realloc\<close> end the process otherwise).
\<close>

subsection \<open>Values\<close>

text \<open>
  A \<open>void*\<close> is null, the address of the manager, the address of the args object, or
  any other address. The caller's \<open>user_data\<close> may be any of them.
\<close>

datatype ptr = NULL | Mgr_ptr | Args_ptr | Ptr nat

text \<open>\<open>grpc_error*\<close>: \<open>GRPC_ERROR_NONE\<close> is the absent error, anything else is opaque.\<close>

datatype grpc_error = GRPC_ERROR_NONE | GRPC_ERROR string

text \<open>
  Modelled from the spec: \<open>GRPC_ERROR_REF\<close> (declared in iomgr/error.h, not part of
  this file) takes a reference on the error object and returns the same error.
\<close>

definition GRPC_ERROR_REF :: "grpc_error \<Rightarrow> grpc_error" where
  "GRPC_ERROR_REF error = error"

type_synonym grpc_handshaker = nat
type_synonym gpr_timespec = int
type_synonym grpc_channel_args = "(string \<times> string) list"
type_synonym grpc_slice_buffer = "nat list"

text \<open>The functions that closures of this file point to.\<close>

datatype grpc_iomgr_cb_func = Cb_null | Cb_call_next_handshaker | Cb_on_timeout | Cb_user nat

record grpc_closure =
  cb :: grpc_iomgr_cb_func
  cb_arg :: ptr

datatype gpr_mu = Mu_unlocked | Mu_locked | Mu_destroyed

datatype grpc_timer = Timer_zeroed | Timer_armed gpr_timespec grpc_closure | Timer_cancelled

record grpc_handshaker_args =
  endpoint :: ptr
  args :: grpc_channel_args
  read_buffer :: grpc_slice_buffer
  user_data :: ptr

text \<open>What the manager does to the outside, in the order it does it.\<close>

datatype event =
    Gpr_realloc nat
  | Handshaker_do_handshake grpc_handshaker ptr grpc_closure ptr
  | Handshaker_shutdown grpc_handshaker
  | Handshaker_destroy grpc_handshaker
  | Timer_init gpr_timespec grpc_closure
  | Timer_cancel
  | Exec_ctx_sched grpc_closure grpc_error grpc_handshaker_args
  | Gpr_free_handshakers
  | Gpr_mu_destroy
  | Gpr_free_mgr

datatype fault =
    Assert_failed string
  | Use_after_free
  | Out_of_bounds
  | Uninitialised_read
  | Bad_pointer

text \<open>
  The fields \<open>mu\<close> to \<open>mgr_user_data\<close> are \<open>struct grpc_handshake_manager\<close> in the
  order of the source (\<open>call_next_handshaker\<close> and \<open>user_data\<close> carry a prefix, the
  first because a function has that name, the second because the args record has the
  same field). \<open>handshakers\<close> is the heap array behind the pointer: one slot per
  allocated element, \<open>None\<close> where nothing has been written; the null pointer is the
  array of no slots. \<open>freed\<close> says that \<open>gpr_free(mgr)\<close> has run, \<open>hs_args\<close> is the
  args object once it is allocated.
\<close>

record state =
  mu :: gpr_mu
  refs :: int
  count :: nat
  handshakers :: "grpc_handshaker option list"
  index :: nat
  mgr_call_next_handshaker :: grpc_closure
  acceptor :: ptr
  deadline_timer :: grpc_timer
  on_handshake_done :: grpc_closure
  mgr_user_data :: ptr
  freed :: bool
  hs_args :: "grpc_handshaker_args option"
  trace :: "event list"

subsection \<open>Sequencing and memory\<close>

definition bnd :: "fault + 'a \<Rightarrow> ('a \<Rightarrow> fault + 'b) \<Rightarrow> fault + 'b" where
  "bnd m f = (case m of Inl e \<Rightarrow> Inl e | Inr x \<Rightarrow> f x)"

definition emit :: "event \<Rightarrow> state \<Rightarrow> state" where
  "emit e s = s\<lparr>trace := trace s @ [e]\<rparr>"

text \<open>Reading \<open>a[i]\<close>: outside the allocation and before the first write, C says nothing.\<close>

definition array_get :: "'a option list \<Rightarrow> nat \<Rightarrow> fault + 'a" where
  "array_get a i =
     (if i < length a then (case a ! i of None \<Rightarrow> Inl Uninitialised_read | Some v \<Rightarrow> Inr v)
      else Inl Out_of_bounds)"

definition array_set :: "'a option list \<Rightarrow> nat \<Rightarrow> 'a \<Rightarrow> fault + 'a option list" where
  "array_set a i v = (if i < length a then Inr (a[i := Some v]) else Inl Out_of_bounds)"

text \<open>
  Modelled from the spec: \<open>gpr_realloc\<close> (support/alloc.h) gives an array of \<open>n\<close>
  slots that keeps the old contents as far as they fit (the storage "grows").
\<close>

definition gpr_realloc :: "'a option list \<Rightarrow> nat \<Rightarrow> 'a option list" where
  "gpr_realloc a n = take n a @ replicate (n - length a) None"

definition gpr_mu_lock :: "state \<Rightarrow> fault + state" where
  "gpr_mu_lock s = (if freed s then Inl Use_after_free else Inr (s\<lparr>mu := Mu_locked\<rparr>))"

definition gpr_mu_unlock :: "state \<Rightarrow> fault + state" where
  "gpr_mu_unlock s = (if freed s then Inl Use_after_free else Inr (s\<lparr>mu := Mu_unlocked\<rparr>))"

text \<open>
  Modelled from the spec: \<open>gpr_ref\<close> adds one to the count, \<open>gpr_unref\<close> takes one
  off and answers whether the count has reached zero (support/sync.h).
\<close>

definition gpr_ref :: "state \<Rightarrow> state" where
  "gpr_ref s = s\<lparr>refs := refs s + 1\<rparr>"

definition gpr_unref :: "state \<Rightarrow> bool \<times> state" where
  "gpr_unref s = (refs s - 1 = 0, s\<lparr>refs := refs s - 1\<rparr>)"

text \<open>
  Modelled from the spec: the timer primitive (iomgr/timer.h), "arm(deadline,
  callback, context), cancel(timer)". Its callback is run later by the timer
  subsystem, never from inside these two calls.
\<close>

definition grpc_timer_init :: "gpr_timespec \<Rightarrow> grpc_closure \<Rightarrow> state \<Rightarrow> state" where
  "grpc_timer_init deadline c s =
     emit (Timer_init deadline c) (s\<lparr>deadline_timer := Timer_armed deadline c\<rparr>)"

definition grpc_timer_cancel :: "state \<Rightarrow> state" where
  "grpc_timer_cancel s = emit Timer_cancel (s\<lparr>deadline_timer := Timer_cancelled\<rparr>)"

text \<open>
  Modelled from the spec: \<open>grpc_exec_ctx_sched\<close> queues a closure with its error; the
  closure runs after the current call has returned. The event records the args object
  as it is when the closure is queued.
\<close>

definition grpc_exec_ctx_sched :: "grpc_closure \<Rightarrow> grpc_error \<Rightarrow> state \<Rightarrow> fault + state" where
  "grpc_exec_ctx_sched c error s =
     (case hs_args s of
        None \<Rightarrow> Inl Bad_pointer
      | Some a \<Rightarrow> Inr (emit (Exec_ctx_sched c error a) s))"

subsection \<open>grpc_handshaker\<close>

definition grpc_handshaker_destroy :: "grpc_handshaker \<Rightarrow> state \<Rightarrow> state" where
  "grpc_handshaker_destroy handshaker s = emit (Handshaker_destroy handshaker) s"

definition grpc_handshaker_shutdown :: "grpc_handshaker \<Rightarrow> state \<Rightarrow> state" where
  "grpc_handshaker_shutdown handshaker s = emit (Handshaker_shutdown handshaker) s"

definition grpc_handshaker_do_handshake ::
  "grpc_handshaker \<Rightarrow> ptr \<Rightarrow> grpc_closure \<Rightarrow> ptr \<Rightarrow> state \<Rightarrow> state" where
  "grpc_handshaker_do_handshake handshaker acc on_done a s =
     emit (Handshaker_do_handshake handshaker acc on_done a) s"

subsection \<open>grpc_handshake_manager\<close>

definition null_closure :: grpc_closure where
  "null_closure = \<lparr>cb = Cb_null, cb_arg = NULL\<rparr>"

definition grpc_handshake_manager_create :: state where
  "grpc_handshake_manager_create =
     \<lparr>mu = Mu_unlocked, refs = 1, count = 0, handshakers = [], index = 0,
      mgr_call_next_handshaker = null_closure, acceptor = NULL,
      deadline_timer = Timer_zeroed, on_handshake_done = null_closure,
      mgr_user_data = NULL, freed = False, hs_args = None, trace = []\<rparr>"

definition is_power_of_2 :: "nat \<Rightarrow> bool" where
  "is_power_of_2 n = ((n AND (n - 1)) = 0)"

text \<open>
  The same function on a 64-bit \<open>size_t\<close>, where \<open>n - 1\<close> wraps at 0. It agrees with the
  one above on every value of the type (\<open>is_power_of_2_size_t_unat\<close> below).
\<close>

definition is_power_of_2_size_t :: "64 word \<Rightarrow> bool" where
  "is_power_of_2_size_t n = ((n AND (n - 1)) = 0)"

definition grpc_handshake_manager_add :: "grpc_handshaker \<Rightarrow> state \<Rightarrow> fault + state" where
  "grpc_handshake_manager_add handshaker s =
     bnd (gpr_mu_lock s) (\<lambda>s.
       let realloc_count =
             (if count s = 0 then 2
              else if count s \<ge> 2 \<and> is_power_of_2 (count s) then count s * 2
              else 0);
           s = (if realloc_count > 0
                then emit (Gpr_realloc realloc_count)
                       (s\<lparr>handshakers := gpr_realloc (handshakers s) realloc_count\<rparr>)
                else s)
       in bnd (array_set (handshakers s) (count s) handshaker) (\<lambda>a.
            gpr_mu_unlock (s\<lparr>handshakers := a, count := count s + 1\<rparr>)))"

function destroy_loop :: "nat \<Rightarrow> state \<Rightarrow> fault + state" where
  "destroy_loop i s =
     (if i < count s
      then bnd (array_get (handshakers s) i) (\<lambda>h.
             destroy_loop (i + 1) (grpc_handshaker_destroy h s))
      else Inr s)"
  by pat_completeness auto
termination
  by (relation "measure (\<lambda>(i, s). count s - i)")
     (auto simp: grpc_handshaker_destroy_def emit_def)

definition grpc_handshake_manager_unref :: "state \<Rightarrow> fault + state" where
  "grpc_handshake_manager_unref s =
     (if freed s then Inl Use_after_free
      else case gpr_unref s of
        (True, s) \<Rightarrow>
          bnd (destroy_loop 0 s) (\<lambda>s.
            let s = emit Gpr_free_handshakers (s\<lparr>handshakers := []\<rparr>);
                s = emit Gpr_mu_destroy (s\<lparr>mu := Mu_destroyed\<rparr>);
                s = emit Gpr_free_mgr (s\<lparr>freed := True\<rparr>)
            in Inr s)
      | (False, s) \<Rightarrow> Inr s)"

definition grpc_handshake_manager_destroy :: "state \<Rightarrow> fault + state" where
  "grpc_handshake_manager_destroy s = grpc_handshake_manager_unref s"

function shutdown_loop :: "nat \<Rightarrow> state \<Rightarrow> fault + state" where
  "shutdown_loop i s =
     (if i < count s
      then bnd (array_get (handshakers s) i) (\<lambda>h.
             shutdown_loop (i + 1) (grpc_handshaker_shutdown h s))
      else Inr s)"
  by pat_completeness auto
termination
  by (relation "measure (\<lambda>(i, s). count s - i)")
     (auto simp: grpc_handshaker_shutdown_def emit_def)

definition grpc_handshake_manager_shutdown :: "state \<Rightarrow> fault + state" where
  "grpc_handshake_manager_shutdown s =
     bnd (gpr_mu_lock s) (\<lambda>s. bnd (shutdown_loop 0 s) gpr_mu_unlock)"

definition call_next_handshaker_locked :: "grpc_error \<Rightarrow> state \<Rightarrow> fault + state" where
  "call_next_handshaker_locked error s =
     (if \<not> index s \<le> count s then Inl (Assert_failed ''mgr->index <= mgr->count'')
      else if error \<noteq> GRPC_ERROR_NONE \<or> index s = count s then
        (let s = grpc_timer_cancel s;
             s = s\<lparr>hs_args := map_option (\<lambda>a. a\<lparr>user_data := mgr_user_data s\<rparr>) (hs_args s)\<rparr>
         in bnd (grpc_exec_ctx_sched (on_handshake_done s) (GRPC_ERROR_REF error) s)
              grpc_handshake_manager_unref)
      else
        bnd (array_get (handshakers s) (index s)) (\<lambda>h.
          let s = grpc_handshaker_do_handshake h (acceptor s) (mgr_call_next_handshaker s)
                    Args_ptr s
          in Inr (s\<lparr>index := index s + 1\<rparr>)))"

text \<open>
  The closure's argument is the args object; the manager is whatever
  \<open>args->user_data\<close> points to, so anything but the manager's address there is a wild
  pointer.
\<close>

definition call_next_handshaker :: "grpc_error \<Rightarrow> state \<Rightarrow> fault + state" where
  "call_next_handshaker error s =
     (case hs_args s of
        None \<Rightarrow> Inl Bad_pointer
      | Some a \<Rightarrow>
          if user_data a \<noteq> Mgr_ptr then Inl Bad_pointer
          else bnd (gpr_mu_lock s) (\<lambda>s.
                 bnd (call_next_handshaker_locked error s) gpr_mu_unlock))"

definition on_timeout :: "grpc_error \<Rightarrow> state \<Rightarrow> fault + state" where
  "on_timeout error s =
     bnd (if error = GRPC_ERROR_NONE then grpc_handshake_manager_shutdown s else Inr s)
       grpc_handshake_manager_unref"

definition grpc_handshake_manager_do_handshake ::
  "ptr \<Rightarrow> grpc_channel_args \<Rightarrow> gpr_timespec \<Rightarrow> ptr \<Rightarrow> grpc_iomgr_cb_func \<Rightarrow> ptr \<Rightarrow>
   state \<Rightarrow> fault + state" where
  "grpc_handshake_manager_do_handshake ep channel_args deadline acc done_cb ud s =
     (let a = \<lparr>endpoint = ep, args = channel_args, read_buffer = [], user_data = NULL\<rparr>
      in bnd (gpr_mu_lock s) (\<lambda>s.
           if index s \<noteq> 0 then Inl (Assert_failed ''mgr->index == 0'')
           else
             let s = s\<lparr>acceptor := acc\<rparr>;
                 s = s\<lparr>mgr_call_next_handshaker :=
                         \<lparr>cb = Cb_call_next_handshaker, cb_arg = Args_ptr\<rparr>\<rparr>;
                 s = s\<lparr>on_handshake_done := \<lparr>cb = done_cb, cb_arg = Args_ptr\<rparr>\<rparr>;
                 s = s\<lparr>hs_args := Some (a\<lparr>user_data := Mgr_ptr\<rparr>)\<rparr>;
                 s = s\<lparr>mgr_user_data := ud\<rparr>;
                 s = gpr_ref s;
                 s = grpc_timer_init deadline \<lparr>cb = Cb_on_timeout, cb_arg = Mgr_ptr\<rparr> s;
                 s = gpr_ref s
             in bnd (call_next_handshaker_locked GRPC_ERROR_NONE s) gpr_mu_unlock))"

subsection \<open>Calls from the outside\<close>

text \<open>
  The caller's own calls, and the two callbacks that the handshakers and the timer
  subsystem invoke. \<open>run\<close> performs a sequence of them and stops at the first fault.
\<close>

datatype call =
    Add grpc_handshaker
  | Destroy
  | Shutdown
  | Do_handshake ptr grpc_channel_args gpr_timespec ptr grpc_iomgr_cb_func ptr
  | Call_next_handshaker grpc_error
  | On_timeout grpc_error

fun step :: "call \<Rightarrow> state \<Rightarrow> fault + state" where
  "step (Add h) s = grpc_handshake_manager_add h s"
| "step Destroy s = grpc_handshake_manager_destroy s"
| "step Shutdown s = grpc_handshake_manager_shutdown s"
| "step (Do_handshake ep ca d acc done_cb ud) s =
     grpc_handshake_manager_do_handshake ep ca d acc done_cb ud s"
| "step (Call_next_handshaker e) s = call_next_handshaker e s"
| "step (On_timeout e) s = on_timeout e s"

fun run :: "call list \<Rightarrow> state \<Rightarrow> fault + state" where
  "run [] s = Inr s"
| "run (c # cs) s = bnd (step c s) (run cs)"

subsection \<open>Describing states and traces\<close>

text \<open>
  The remaining definitions are vocabulary for the theorems: what it means that a list of
  handshakers is registered in a manager, the closures that
  \<open>grpc_handshake_manager_do_handshake\<close> builds, and projections of a trace.
\<close>

text \<open>
  \<open>registered_in s hs\<close>: the count is the length of \<open>hs\<close> and the first \<open>count\<close> slots of
  the array hold \<open>hs\<close>, in this order.
\<close>

definition holds_prefix :: "nat \<Rightarrow> 'a option list \<Rightarrow> 'a list \<Rightarrow> bool" where
  "holds_prefix n a xs \<longleftrightarrow> n = length xs \<and> take n a = map Some xs"

definition registered_in :: "state \<Rightarrow> grpc_handshaker list \<Rightarrow> bool" where
  "registered_in s hs = holds_prefix (count s) (handshakers s) hs"

text \<open>The value of the local \<open>realloc_count\<close> of the add function at count \<open>c\<close>.\<close>

definition realloc_count_of :: "nat \<Rightarrow> nat" where
  "realloc_count_of c =
     (if c = 0 then 2 else if c \<ge> 2 \<and> is_power_of_2 c then c * 2 else 0)"

text \<open>
  The handshakers whose \<open>do_handshake\<close> has been called, and the closures queued on the
  scheduler with their error and the args they will find, both in the order of the trace.
\<close>

fun started :: "event list \<Rightarrow> grpc_handshaker list" where
  "started [] = []"
| "started (Handshaker_do_handshake h _ _ _ # es) = h # started es"
| "started (_ # es) = started es"

fun terminal_calls :: "event list \<Rightarrow> (grpc_closure \<times> grpc_error \<times> grpc_handshaker_args) list" where
  "terminal_calls [] = []"
| "terminal_calls (Exec_ctx_sched c e a # es) = (c, e, a) # terminal_calls es"
| "terminal_calls (_ # es) = terminal_calls es"

text \<open>
  \<open>cap_ok n c\<close>: \<open>c\<close> is the capacity that goes with a count of \<open>n\<close>; \<open>added s hs\<close>: the
  state of a manager on which \<open>hs\<close> have been added and nothing else has been done.
\<close>

definition cap_ok :: "nat \<Rightarrow> nat \<Rightarrow> bool" where
  "cap_ok n c \<longleftrightarrow>
     (n = 0 \<and> c = 0) \<or> (n = 1 \<and> c = 2) \<or> (2 \<le> n \<and> n \<le> c \<and> c < 2 * n \<and> (\<exists>k. c = 2 ^ k))"

definition added :: "state \<Rightarrow> grpc_handshaker list \<Rightarrow> bool" where
  "added s hs \<longleftrightarrow>
     \<not> freed s \<and> registered_in s hs \<and> cap_ok (length hs) (length (handshakers s)) \<and>
     index s = 0 \<and> refs s = 1 \<and> started (trace s) = [] \<and> terminal_calls (trace s) = []"

text \<open>
  The closures and the args object as \<open>grpc_handshake_manager_do_handshake\<close> initialises
  them, and the event of starting a handshaker in a state.
\<close>

definition hs_start :: "state \<Rightarrow> grpc_handshaker \<Rightarrow> event" where
  "hs_start s h =
     Handshaker_do_handshake h (acceptor s) (mgr_call_next_handshaker s) Args_ptr"

definition timeout_closure :: grpc_closure where
  "timeout_closure = \<lparr>cb = Cb_on_timeout, cb_arg = Mgr_ptr\<rparr>"

definition advance_closure :: grpc_closure where
  "advance_closure = \<lparr>cb = Cb_call_next_handshaker, cb_arg = Args_ptr\<rparr>"

definition done_closure :: "grpc_iomgr_cb_func \<Rightarrow> grpc_closure" where
  "done_closure f = \<lparr>cb = f, cb_arg = Args_ptr\<rparr>"

definition new_args :: "ptr \<Rightarrow> grpc_channel_args \<Rightarrow> ptr \<Rightarrow> grpc_handshaker_args" where
  "new_args ep ca ud = \<lparr>endpoint = ep, args = ca, read_buffer = [], user_data = ud\<rparr>"

text \<open>A manager in the middle of a chain: three handshakers in four slots, the first started.\<close>

definition example_manager :: state where
  "example_manager =
     grpc_handshake_manager_create\<lparr>count := 3, handshakers := [Some 11, Some 12, Some 13, None],
       index := 1, refs := 3\<rparr>"

text \<open>
  The handshakers' side of a handshake. Each handshaker that is started invokes the
  advance closure once, with its error. If \<open>rs\<close> lists, per registered handshaker, the
  error it would report, the advance closure is invoked with \<open>reports rs\<close>: the errors up to
  and including the first one that is not \<open>GRPC_ERROR_NONE\<close>. \<open>outcome rs\<close> is the last
  of them, \<open>GRPC_ERROR_NONE\<close> if there is none.
\<close>

fun reports :: "grpc_error list \<Rightarrow> grpc_error list" where
  "reports [] = []"
| "reports (e # es) = (if e = GRPC_ERROR_NONE then e # reports es else [e])"

definition outcome :: "grpc_error list \<Rightarrow> grpc_error" where
  "outcome rs = last (GRPC_ERROR_NONE # reports rs)"


text \<open>
  The destruction actions in a trace, and the ones that
  \<open>grpc_handshake_manager_unref\<close> performs on the last reference for handshakers \<open>hs\<close>.
\<close>

fun is_destruction :: "event \<Rightarrow> bool" where
  "is_destruction (Handshaker_destroy _) = True"
| "is_destruction Gpr_free_handshakers = True"
| "is_destruction Gpr_mu_destroy = True"
| "is_destruction Gpr_free_mgr = True"
| "is_destruction _ = False"

definition destructions :: "event list \<Rightarrow> event list" where
  "destructions es = filter is_destruction es"

definition destruction_of :: "grpc_handshaker list \<Rightarrow> event list" where
  "destruction_of hs =
     map Handshaker_destroy hs @ [Gpr_free_handshakers, Gpr_mu_destroy, Gpr_free_mgr]"

text \<open>
  The handshakers that a sequence of calls adds. \<open>inv hs s\<close> is what holds of every state
  reached from a fresh manager when \<open>hs\<close> have been added on the way; \<open>step_ok\<close> says of
  the result of one call that the invariant is kept, the cursor has not gone back and the
  fault, if any, is not the assertion on the cursor.
\<close>

fun added_by :: "call list \<Rightarrow> grpc_handshaker list" where
  "added_by [] = []"
| "added_by (Add h # cs) = h # added_by cs"
| "added_by (_ # cs) = added_by cs"

definition inv :: "grpc_handshaker list \<Rightarrow> state \<Rightarrow> bool" where
  "inv hs s \<longleftrightarrow>
     index s \<le> count s \<and>
     (if freed s then refs s = 0 \<and> destructions (trace s) = destruction_of hs
      else 1 \<le> refs s \<and> registered_in s hs \<and> destructions (trace s) = [])"

definition index_assert :: fault where
  "index_assert = Assert_failed ''mgr->index <= mgr->count''"

definition step_ok :: "grpc_handshaker list \<Rightarrow> state \<Rightarrow> fault + state \<Rightarrow> bool" where
  "step_ok hs s r =
     (case r of Inl e \<Rightarrow> e \<noteq> index_assert | Inr s' \<Rightarrow> inv hs s' \<and> index s \<le> index s')"

text \<open>
  The manager's three owners and the rules they follow. The caller makes its own calls
  while it holds its reference, that is before its destroy, and calls do_handshake only
  with the cursor at 0. A handshaker invokes the advance closure only after it has been
  started, once. The timer subsystem invokes the timeout callback once for every time the
  timer has been armed. \<open>allowed past s c\<close> says that the call \<open>c\<close> follows these rules in
  the state \<open>s\<close> that the calls \<open>past\<close> have led to, and \<open>conforms past cs s\<close> that the calls
  \<open>cs\<close> do so one after the other, up to the end or to the first fault.
\<close>

fun armed :: "event list \<Rightarrow> nat" where
  "armed [] = 0"
| "armed (Timer_init _ _ # es) = Suc (armed es)"
| "armed (_ # es) = armed es"

fun reported :: "call list \<Rightarrow> nat" where
  "reported [] = 0"
| "reported (Call_next_handshaker _ # cs) = Suc (reported cs)"
| "reported (_ # cs) = reported cs"

fun timed_out :: "call list \<Rightarrow> nat" where
  "timed_out [] = 0"
| "timed_out (On_timeout _ # cs) = Suc (timed_out cs)"
| "timed_out (_ # cs) = timed_out cs"

fun allowed :: "call list \<Rightarrow> state \<Rightarrow> call \<Rightarrow> bool" where
  "allowed past s (Call_next_handshaker e) = (reported past < length (started (trace s)))"
| "allowed past s (On_timeout e) = (timed_out past < armed (trace s))"
| "allowed past s (Do_handshake ep ca d acc f ud) = (Destroy \<notin> set past \<and> index s = 0)"
| "allowed past s c = (Destroy \<notin> set past)"

fun conforms :: "call list \<Rightarrow> call list \<Rightarrow> state \<Rightarrow> bool" where
  "conforms past [] s = True"
| "conforms past (c # cs) s =
     (allowed past s c \<and>
      (case step c s of Inl f \<Rightarrow> True | Inr s' \<Rightarrow> conforms (past @ [c]) cs s'))"

text \<open>
  \<open>owners past s\<close> counts the owners that have not let go: the caller unless it has
  destroyed, every arming of the timer whose callback has not run, and the chain while a
  started handshaker has not reported.
\<close>

definition owners :: "call list \<Rightarrow> state \<Rightarrow> int" where
  "owners past s =
     (if Destroy \<in> set past then 0 else 1) +
     (int (armed (trace s)) - int (timed_out past)) +
     (int (length (started (trace s))) - int (reported past))"

text \<open>
  What holds of a live manager under these rules (\<open>acct\<close>), of a freed one
  (\<open>finished\<close>), and of the one situation in which a call faults: the chain gives up the
  last reference (\<open>chain_last\<close>).
\<close>

definition acct :: "call list \<Rightarrow> state \<Rightarrow> bool" where
  "acct past s \<longleftrightarrow>
     \<not> freed s \<and> registered_in s (added_by past) \<and>
     cap_ok (length (added_by past)) (length (handshakers s)) \<and>
     index s = length (started (trace s)) \<and> index s \<le> count s \<and>
     destructions (trace s) = [] \<and> refs s = owners past s \<and> 1 \<le> refs s \<and>
     timed_out past \<le> armed (trace s) \<and>
     reported past \<le> length (started (trace s)) \<and>
     length (started (trace s)) \<le> reported past + 1 \<and>
     (reported past < length (started (trace s)) \<longrightarrow>
        map_option user_data (hs_args s) = Some Mgr_ptr)"

definition finished :: "call list \<Rightarrow> state \<Rightarrow> bool" where
  "finished past s \<longleftrightarrow>
     freed s \<and> refs s = 0 \<and> Destroy \<in> set past \<and> timed_out past = armed (trace s) \<and>
     reported past = length (started (trace s)) \<and>
     destructions (trace s) = destruction_of (added_by past)"

definition chain_last :: "call list \<Rightarrow> state \<Rightarrow> grpc_error \<Rightarrow> bool" where
  "chain_last past s e \<longleftrightarrow>
     \<not> freed s \<and> refs s = 1 \<and> owners past s = 1 \<and> Destroy \<in> set past \<and>
     destructions (trace s) = [] \<and>
     call_next_handshaker e s = Inl Use_after_free \<and>
     (\<exists>s' a. call_next_handshaker_locked e (s\<lparr>mu := Mu_locked\<rparr>) = Inr s' \<and>
        freed s' \<and> refs s' = 0 \<and>
        trace s' = trace s @ [Timer_cancel, Exec_ctx_sched (on_handshake_done s) e a] @
          destruction_of (added_by past))"

section \<open>Properties of the operations\<close>

subsection \<open>The power-of-two test\<close>

text \<open>\<open>n & (n - 1) == 0\<close> holds of a positive \<open>n\<close> exactly when it is a power of two.\<close>

lemma and_pred_even: "m > 0 \<Longrightarrow> ((2 * m) AND (2 * m - 1)) = 2 * (m AND (m - 1))" for m :: nat
proof -
  assume "m > 0"
  then have "2 * m - 1 = 1 + 2 * (m - 1)" by simp
  then show ?thesis
    by (simp add: and_nat_rec [of "2 * m"] del: One_nat_def)
qed

lemma and_pred_odd: "((2 * m + 1) AND (2 * m + 1 - 1)) = 2 * m" for m :: nat
  by (simp add: and_nat_rec [of "Suc (2 * m)" "2 * m"])

lemma is_power_of_2_size_t_unat: "is_power_of_2_size_t n = is_power_of_2 (unat n)"
proof (cases "n = 0")
  case True
  then show ?thesis by (simp add: is_power_of_2_size_t_def is_power_of_2_def)
next
  case False
  then have "unat (n - 1) = unat n - 1" by (simp add: unat_minus_one)
  moreover have "unat (n AND (n - 1)) = unat n AND unat (n - 1)"
    by (simp add: unsigned_and_eq)
  ultimately show ?thesis
    by (simp add: is_power_of_2_size_t_def is_power_of_2_def unat_eq_0 [symmetric])
qed

lemma pow2_and: "is_power_of_2 (2 ^ k)"
  unfolding is_power_of_2_def
proof (induction k)
  case 0 show ?case by simp
next
  case (Suc k)
  have "(2::nat) ^ Suc k = 2 * 2 ^ k" by simp
  with Suc and_pred_even [of "2 ^ k"] show ?case by simp
qed

lemma and_pow2: "n > 0 \<Longrightarrow> is_power_of_2 n \<Longrightarrow> \<exists>k. n = 2 ^ k"
proof (induction n rule: less_induct)
  case (less n)
  show ?case
  proof (cases "even n")
    case True
    then obtain m where m: "n = 2 * m" by (auto elim: evenE)
    with less.prems have m0: "m > 0" by simp
    from less.prems(2) m and_pred_even [OF m0] have "is_power_of_2 m"
      by (simp add: is_power_of_2_def)
    with less.IH [of m] m m0 obtain k where "m = 2 ^ k" by auto
    with m have "n = 2 ^ Suc k" by simp
    then show ?thesis by blast
  next
    case False
    then obtain m where m: "n = 2 * m + 1" by (auto elim: oddE)
    with less.prems(2) and_pred_odd [of m] have "m = 0"
      by (simp add: is_power_of_2_def)
    with m have "n = 2 ^ 0" by simp
    then show ?thesis by blast
  qed
qed

subsection \<open>The array and the two loops over it\<close>

declare shutdown_loop.simps [simp del] destroy_loop.simps [simp del]

lemma bnd_Inr [simp]: "bnd (Inr x) f = f x"
  by (simp add: bnd_def)

lemma bnd_Inl [simp]: "bnd (Inl e) f = Inl e"
  by (simp add: bnd_def)

lemma registered_in_count: "registered_in s hs \<Longrightarrow> count s = length hs"
  by (simp add: registered_in_def holds_prefix_def)

lemma registered_in_take: "registered_in s hs \<Longrightarrow> take (length hs) (handshakers s) = map Some hs"
  by (metis registered_in_def holds_prefix_def)

lemma registered_in_get:
  assumes "registered_in s hs" and "i < length hs"
  shows "array_get (handshakers s) i = Inr (hs ! i)"
proof -
  from assms have c: "count s = length hs" and t: "take (length hs) (handshakers s) = map Some hs"
    by (simp_all add: registered_in_count registered_in_take)
  from t have "length (take (length hs) (handshakers s)) = length hs" by simp
  with assms(2) have l: "i < length (handshakers s)" by simp
  from assms(2) have "take (length hs) (handshakers s) ! i = handshakers s ! i" by simp
  with t assms(2) have "handshakers s ! i = Some (hs ! i)" by simp
  with l show ?thesis by (simp add: array_get_def)
qed

lemma registered_in_trace [simp]: "registered_in (s\<lparr>trace := t\<rparr>) hs = registered_in s hs"
  by (simp add: registered_in_def)

lemma registered_in_mu [simp]: "registered_in (s\<lparr>mu := t\<rparr>) hs = registered_in s hs"
  by (simp add: registered_in_def)

lemma shutdown_loop_registered:
  "registered_in s hs \<Longrightarrow> i \<le> length hs \<Longrightarrow>
   shutdown_loop i s = Inr (s\<lparr>trace := trace s @ map Handshaker_shutdown (drop i hs)\<rparr>)"
proof (induction "length hs - i" arbitrary: i s)
  case 0
  then have "i = length hs" by simp
  with 0 show ?case
    by (simp add: shutdown_loop.simps [of "length hs" s] registered_in_count)
next
  case (Suc n)
  then have i: "i < length hs" by simp
  then have d: "drop i hs = hs ! i # drop (Suc i) hs" by (simp add: Cons_nth_drop_Suc)
  let ?s = "grpc_handshaker_shutdown (hs ! i) s"
  have r: "registered_in ?s hs" using Suc.prems(1)
    by (simp add: grpc_handshaker_shutdown_def emit_def)
  from Suc.hyps(2) i have "n = length hs - Suc i" by simp
  from Suc.hyps(1) [OF this r] i
  have "shutdown_loop (Suc i) ?s = Inr (?s\<lparr>trace := trace ?s @ map Handshaker_shutdown (drop (Suc i) hs)\<rparr>)"
    by simp
  moreover from Suc.prems(1) i have "i < count s" by (simp add: registered_in_count)
  ultimately show ?case using registered_in_get [OF Suc.prems(1) i] d
    by (simp add: shutdown_loop.simps [of i s] grpc_handshaker_shutdown_def emit_def)
qed

lemma destroy_loop_registered:
  "registered_in s hs \<Longrightarrow> i \<le> length hs \<Longrightarrow>
   destroy_loop i s = Inr (s\<lparr>trace := trace s @ map Handshaker_destroy (drop i hs)\<rparr>)"
proof (induction "length hs - i" arbitrary: i s)
  case 0
  then have "i = length hs" by simp
  with 0 show ?case
    by (simp add: destroy_loop.simps [of "length hs" s] registered_in_count)
next
  case (Suc n)
  then have i: "i < length hs" by simp
  then have d: "drop i hs = hs ! i # drop (Suc i) hs" by (simp add: Cons_nth_drop_Suc)
  let ?s = "grpc_handshaker_destroy (hs ! i) s"
  have r: "registered_in ?s hs" using Suc.prems(1)
    by (simp add: grpc_handshaker_destroy_def emit_def)
  from Suc.hyps(2) i have "n = length hs - Suc i" by simp
  from Suc.hyps(1) [OF this r] i
  have "destroy_loop (Suc i) ?s = Inr (?s\<lparr>trace := trace ?s @ map Handshaker_destroy (drop (Suc i) hs)\<rparr>)"
    by simp
  moreover from Suc.prems(1) i have "i < count s" by (simp add: registered_in_count)
  ultimately show ?case using registered_in_get [OF Suc.prems(1) i] d
    by (simp add: destroy_loop.simps [of i s] grpc_handshaker_destroy_def emit_def)
qed

lemma shutdown_registered:
  "\<not> freed s \<Longrightarrow> registered_in s hs \<Longrightarrow>
   grpc_handshake_manager_shutdown s =
     Inr (s\<lparr>mu := Mu_unlocked, trace := trace s @ map Handshaker_shutdown hs\<rparr>)"
proof -
  assume f: "\<not> freed s" and r: "registered_in s hs"
  let ?s = "s\<lparr>mu := Mu_locked\<rparr>"
  from r have "registered_in ?s hs" by simp
  from shutdown_loop_registered [OF this, of 0] f show ?thesis
    by (simp add: grpc_handshake_manager_shutdown_def gpr_mu_lock_def gpr_mu_unlock_def)
qed

subsection \<open>add\<close>

lemma length_gpr_realloc [simp]: "length (gpr_realloc a n) = n"
  by (simp add: gpr_realloc_def)

lemma take_gpr_realloc: "m \<le> n \<Longrightarrow> m \<le> length a \<Longrightarrow> take m (gpr_realloc a n) = take m a"
  by (simp add: gpr_realloc_def min_def)

lemma add_realloc:
  assumes "\<not> freed s" and "realloc_count_of (count s) > 0"
  shows "grpc_handshake_manager_add h s =
           Inr (s\<lparr>mu := Mu_unlocked,
                  handshakers := (gpr_realloc (handshakers s) (realloc_count_of (count s)))
                                   [count s := Some h],
                  count := count s + 1,
                  trace := trace s @ [Gpr_realloc (realloc_count_of (count s))]\<rparr>)"
proof -
  from assms(2) have "count s < realloc_count_of (count s)"
    by (auto simp: realloc_count_of_def split: if_splits)
  with assms show ?thesis
    by (simp add: grpc_handshake_manager_add_def gpr_mu_lock_def gpr_mu_unlock_def
        realloc_count_of_def [symmetric] Let_def emit_def array_set_def)
qed

lemma add_no_realloc:
  assumes "\<not> freed s" and "realloc_count_of (count s) = 0"
    and "count s < length (handshakers s)"
  shows "grpc_handshake_manager_add h s =
           Inr (s\<lparr>mu := Mu_unlocked,
                  handshakers := (handshakers s)[count s := Some h],
                  count := count s + 1\<rparr>)"
  using assms
  by (simp add: grpc_handshake_manager_add_def gpr_mu_lock_def gpr_mu_unlock_def
      realloc_count_of_def [symmetric] Let_def emit_def array_set_def)

lemma add_out_of_bounds:
  assumes "\<not> freed s" and "realloc_count_of (count s) = 0"
    and "\<not> count s < length (handshakers s)"
  shows "grpc_handshake_manager_add h s = Inl Out_of_bounds"
  using assms
  by (simp add: grpc_handshake_manager_add_def gpr_mu_lock_def gpr_mu_unlock_def
      realloc_count_of_def [symmetric] Let_def emit_def array_set_def)

lemma started_append [simp]: "started (xs @ ys) = started xs @ started ys"
  by (induction xs rule: started.induct) simp_all

lemma terminal_calls_append [simp]:
  "terminal_calls (xs @ ys) = terminal_calls xs @ terminal_calls ys"
  by (induction xs rule: terminal_calls.induct) simp_all

lemma realloc_count_of_cases:
  "realloc_count_of c = (if c = 0 then 2 else if 2 \<le> c \<and> (\<exists>k. c = 2 ^ k) then 2 * c else 0)"
proof -
  have "c > 0 \<Longrightarrow> is_power_of_2 c \<longleftrightarrow> (\<exists>k. c = 2 ^ k)"
    using and_pow2 [of c] pow2_and by auto
  then show ?thesis by (auto simp: realloc_count_of_def)
qed

lemma registered_in_le: "registered_in s hs \<Longrightarrow> length hs \<le> length (handshakers s)"
proof -
  assume "registered_in s hs"
  then have "length (take (length hs) (handshakers s)) = length hs"
    by (simp add: registered_in_take)
  then show ?thesis by simp
qed

lemma registered_in_snoc:
  assumes r: "registered_in s hs" and c: "count s' = length hs + 1"
    and l: "length hs < length a" and t: "take (length hs) a = take (length hs) (handshakers s)"
    and h: "handshakers s' = a[length hs := Some h]"
  shows "registered_in s' (hs @ [h])"
proof -
  have "take (Suc (length hs)) (a[length hs := Some h]) =
          take (length hs) (a[length hs := Some h]) @ [a[length hs := Some h] ! length hs]"
    using l by (simp add: take_Suc_conv_app_nth)
  also have "\<dots> = take (length hs) a @ [Some h]" using l by simp
  also have "\<dots> = map Some (hs @ [h])" using t registered_in_take [OF r] by simp
  finally show ?thesis using c h by (simp add: registered_in_def holds_prefix_def)
qed

lemma cap_ok_step:
  assumes "cap_ok n c"
  shows "cap_ok (n + 1) (if realloc_count_of n > 0 then realloc_count_of n else c)
         \<and> n < (if realloc_count_of n > 0 then realloc_count_of n else c)"
proof -
  have "n = 0 \<or> n = 1 \<or> 2 \<le> n" by arith
  then consider "n = 0" | "n = 1" | "2 \<le> n" "\<exists>k. n = 2 ^ k" | "2 \<le> n" "\<not> (\<exists>k. n = 2 ^ k)"
    by auto
  then show ?thesis
  proof cases
    case 1
    then show ?thesis by (simp add: realloc_count_of_cases cap_ok_def)
  next
    case 2
    have "(2::nat) = 2 ^ 1" by simp
    then have "\<exists>k. (2::nat) = 2 ^ k" by blast
    with 2 assms show ?thesis by (simp add: realloc_count_of_cases cap_ok_def)
  next
    case 3
    then obtain j where j: "n = 2 ^ j" by blast
    then have "2 * n = 2 ^ Suc j" by simp
    then have "\<exists>k. 2 * n = 2 ^ k" by blast
    with 3 show ?thesis by (simp add: realloc_count_of_cases cap_ok_def)
  next
    case 4
    with assms obtain k where k: "c = 2 ^ k" and b: "n \<le> c" "c < 2 * n"
      by (auto simp: cap_ok_def)
    from 4(2) k have "n \<noteq> c" by blast
    with b have "n < c" by simp
    with 4 k b show ?thesis by (auto simp: realloc_count_of_cases cap_ok_def)
  qed
qed

lemma add_added:
  assumes a: "added s hs"
  shows "\<exists>s'. grpc_handshake_manager_add h s = Inr s' \<and> added s' (hs @ [h]) \<and>
          trace s' = trace s @
            (if realloc_count_of (length hs) > 0 then [Gpr_realloc (realloc_count_of (length hs))]
             else []) \<and>
          length (handshakers s') =
            (if realloc_count_of (length hs) > 0 then realloc_count_of (length hs)
             else length (handshakers s)) \<and>
          length hs < length (handshakers s') \<and>
          handshakers s' ! length hs = Some h"
proof -
  from a have f: "\<not> freed s" and r: "registered_in s hs"
    and c: "cap_ok (length hs) (length (handshakers s))" and i: "index s = 0" "refs s = 1"
      "started (trace s) = []" "terminal_calls (trace s) = []"
    by (simp_all add: added_def)
  from r have n: "count s = length hs" by (rule registered_in_count)
  note st = cap_ok_step [OF c]
  show ?thesis
  proof (cases "realloc_count_of (length hs) > 0")
    case True
    let ?a = "gpr_realloc (handshakers s) (realloc_count_of (length hs))"
    let ?s' = "s\<lparr>mu := Mu_unlocked, handshakers := ?a[length hs := Some h],
                 count := length hs + 1,
                 trace := trace s @ [Gpr_realloc (realloc_count_of (length hs))]\<rparr>"
    from True f n have e: "grpc_handshake_manager_add h s = Inr ?s'"
      using add_realloc [of s h] by simp
    from st True have lt: "length hs < realloc_count_of (length hs)" by simp
    have "take (length hs) ?a = take (length hs) (handshakers s)"
      using lt registered_in_le [OF r] by (simp add: take_gpr_realloc)
    then have "registered_in ?s' (hs @ [h])"
      using lt by (intro registered_in_snoc [OF r, where a = ?a]) simp_all
    with e st True f i lt show ?thesis by (simp add: added_def)
  next
    case False
    let ?s' = "s\<lparr>mu := Mu_unlocked, handshakers := (handshakers s)[length hs := Some h],
                 count := length hs + 1\<rparr>"
    from st False have lt: "length hs < length (handshakers s)" by simp
    with False f n have e: "grpc_handshake_manager_add h s = Inr ?s'"
      using add_no_realloc [of s h] by simp
    have "registered_in ?s' (hs @ [h])"
      using lt by (intro registered_in_snoc [OF r, where a = "handshakers s"]) simp_all
    with e st False f i lt show ?thesis by (simp add: added_def)
  qed
qed

lemma run_append: "run (xs @ ys) s = bnd (run xs s) (run ys)"
  by (induction xs arbitrary: s) (auto simp: bnd_def split: sum.splits)

lemma added_create: "added grpc_handshake_manager_create []"
  by (simp add: added_def grpc_handshake_manager_create_def registered_in_def holds_prefix_def
      cap_ok_def)

lemma run_adds: "\<exists>s. run (map Add hs) grpc_handshake_manager_create = Inr s \<and> added s hs"
proof (induction hs rule: rev_induct)
  case Nil
  show ?case using added_create by simp
next
  case (snoc h hs)
  then obtain s where s: "run (map Add hs) grpc_handshake_manager_create = Inr s" "added s hs"
    by blast
  from add_added [OF s(2), of h] obtain s' where
    "grpc_handshake_manager_add h s = Inr s'" "added s' (hs @ [h])" by blast
  with s show ?case by (simp add: run_append)
qed

subsection \<open>unref and the advance step\<close>

lemma unref_keep:
  "\<not> freed s \<Longrightarrow> refs s \<noteq> 1 \<Longrightarrow> grpc_handshake_manager_unref s = Inr (s\<lparr>refs := refs s - 1\<rparr>)"
  by (simp add: grpc_handshake_manager_unref_def gpr_unref_def)

lemma unref_last:
  assumes "\<not> freed s" and "refs s = 1" and "registered_in s hs"
  shows "grpc_handshake_manager_unref s =
     Inr (s\<lparr>mu := Mu_destroyed, refs := 0, handshakers := [], freed := True,
            trace := trace s @ map Handshaker_destroy hs @
                       [Gpr_free_handshakers, Gpr_mu_destroy, Gpr_free_mgr]\<rparr>)"
proof -
  let ?s = "s\<lparr>refs := 0\<rparr>"
  from assms(3) have "registered_in ?s hs" by (simp add: registered_in_def)
  from destroy_loop_registered [OF this, of 0] assms(1,2) show ?thesis
    by (simp add: grpc_handshake_manager_unref_def gpr_unref_def emit_def Let_def)
qed

lemma locked_continue:
  assumes "registered_in s hs" and "index s < length hs"
  shows "call_next_handshaker_locked GRPC_ERROR_NONE s =
     Inr (s\<lparr>index := index s + 1, trace := trace s @ [hs_start s (hs ! index s)]\<rparr>)"
  using assms registered_in_get [OF assms] registered_in_count [OF assms(1)]
  by (simp add: call_next_handshaker_locked_def grpc_handshaker_do_handshake_def emit_def
      hs_start_def)

lemma locked_terminal:
  assumes "\<not> freed s" and "index s \<le> count s" and "e \<noteq> GRPC_ERROR_NONE \<or> index s = count s"
    and "hs_args s = Some a" and "refs s \<noteq> 1"
  shows "call_next_handshaker_locked e s =
     Inr (s\<lparr>refs := refs s - 1, deadline_timer := Timer_cancelled,
            hs_args := Some (a\<lparr>user_data := mgr_user_data s\<rparr>),
            trace := trace s @ [Timer_cancel,
              Exec_ctx_sched (on_handshake_done s) e (a\<lparr>user_data := mgr_user_data s\<rparr>)]\<rparr>)"
proof -
  let ?s = "s\<lparr>deadline_timer := Timer_cancelled,
            hs_args := Some (a\<lparr>user_data := mgr_user_data s\<rparr>),
            trace := trace s @ [Timer_cancel,
              Exec_ctx_sched (on_handshake_done s) e (a\<lparr>user_data := mgr_user_data s\<rparr>)]\<rparr>"
  have "call_next_handshaker_locked e s = grpc_handshake_manager_unref ?s"
    using assms(2,3,4)
    by (auto simp: call_next_handshaker_locked_def grpc_timer_cancel_def emit_def
        grpc_exec_ctx_sched_def GRPC_ERROR_REF_def Let_def)
  also have "\<dots> = Inr (?s\<lparr>refs := refs ?s - 1\<rparr>)"
    using assms(1,5) by (intro unref_keep) simp_all
  finally show ?thesis by simp
qed

lemma advance_continue:
  assumes "\<not> freed s" and "registered_in s hs" and "index s < length hs"
    and "hs_args s = Some a" and "user_data a = Mgr_ptr"
  shows "call_next_handshaker GRPC_ERROR_NONE s =
     Inr (s\<lparr>mu := Mu_unlocked, index := index s + 1,
            trace := trace s @ [hs_start s (hs ! index s)]\<rparr>)"
proof -
  let ?s = "s\<lparr>mu := Mu_locked\<rparr>"
  have "registered_in ?s hs" "index ?s < length hs"
    using assms(2,3) by (simp_all add: registered_in_def)
  from locked_continue [OF this] assms(1,4,5) show ?thesis
    by (simp add: call_next_handshaker_def gpr_mu_lock_def gpr_mu_unlock_def hs_start_def)
qed

lemma advance_terminal:
  assumes "\<not> freed s" and "index s \<le> count s" and "e \<noteq> GRPC_ERROR_NONE \<or> index s = count s"
    and "hs_args s = Some a" and "user_data a = Mgr_ptr" and "refs s \<noteq> 1"
  shows "call_next_handshaker e s =
     Inr (s\<lparr>mu := Mu_unlocked, refs := refs s - 1, deadline_timer := Timer_cancelled,
            hs_args := Some (a\<lparr>user_data := mgr_user_data s\<rparr>),
            trace := trace s @ [Timer_cancel,
              Exec_ctx_sched (on_handshake_done s) e (a\<lparr>user_data := mgr_user_data s\<rparr>)]\<rparr>)"
proof -
  let ?s = "s\<lparr>mu := Mu_locked\<rparr>"
  have "\<not> freed ?s" "index ?s \<le> count ?s" "e \<noteq> GRPC_ERROR_NONE \<or> index ?s = count ?s"
    "hs_args ?s = Some a" "refs ?s \<noteq> 1"
    using assms by simp_all
  from locked_terminal [OF this] assms(1,4,5) show ?thesis
    by (simp add: call_next_handshaker_def gpr_mu_lock_def gpr_mu_unlock_def)
qed

lemma chain_run:
  assumes "\<not> freed s" and "registered_in s hs" and "index s + k \<le> length hs"
    and "e \<noteq> GRPC_ERROR_NONE \<or> index s + k = length hs"
    and "hs_args s = Some a" and "user_data a = Mgr_ptr" and "refs s \<noteq> 1"
  shows "run (replicate k (Call_next_handshaker GRPC_ERROR_NONE) @ [Call_next_handshaker e]) s =
     Inr (s\<lparr>mu := Mu_unlocked, refs := refs s - 1, index := index s + k,
            deadline_timer := Timer_cancelled,
            hs_args := Some (a\<lparr>user_data := mgr_user_data s\<rparr>),
            trace := trace s @ map (hs_start s) (take k (drop (index s) hs)) @ [Timer_cancel,
              Exec_ctx_sched (on_handshake_done s) e (a\<lparr>user_data := mgr_user_data s\<rparr>)]\<rparr>)"
  using assms
proof (induction k arbitrary: s)
  case 0
  from 0(2) have c: "count s = length hs" by (rule registered_in_count)
  from advance_terminal [of s e a] 0 c show ?case by simp
next
  case (Suc k)
  let ?s = "s\<lparr>mu := Mu_unlocked, index := index s + 1,
            trace := trace s @ [hs_start s (hs ! index s)]\<rparr>"
  from Suc.prems have i: "index s < length hs" by simp
  have st: "call_next_handshaker GRPC_ERROR_NONE s = Inr ?s"
    using Suc.prems i by (intro advance_continue) simp_all
  have d: "take (Suc k) (drop (index s) hs) = hs ! index s # take k (drop (Suc (index s)) hs)"
    using i by (simp add: Cons_nth_drop_Suc [symmetric])
  have "run (replicate k (Call_next_handshaker GRPC_ERROR_NONE) @ [Call_next_handshaker e]) ?s =
     Inr (?s\<lparr>mu := Mu_unlocked, refs := refs ?s - 1, index := index ?s + k,
            deadline_timer := Timer_cancelled,
            hs_args := Some (a\<lparr>user_data := mgr_user_data ?s\<rparr>),
            trace := trace ?s @ map (hs_start ?s) (take k (drop (index ?s) hs)) @ [Timer_cancel,
              Exec_ctx_sched (on_handshake_done ?s) e (a\<lparr>user_data := mgr_user_data ?s\<rparr>)]\<rparr>)"
    using Suc.prems by (intro Suc.IH) (simp_all add: registered_in_def)
  then show ?case using st d by (simp add: hs_start_def)
qed

subsection \<open>do_handshake and on_timeout\<close>

lemma do_handshake_unfold:
  assumes "\<not> freed s" and "index s = 0"
  shows "grpc_handshake_manager_do_handshake ep ca d acc f ud s =
     bnd (call_next_handshaker_locked GRPC_ERROR_NONE
           (s\<lparr>mu := Mu_locked, refs := refs s + 2, mgr_call_next_handshaker := advance_closure,
              acceptor := acc, deadline_timer := Timer_armed d timeout_closure,
              on_handshake_done := done_closure f, mgr_user_data := ud,
              hs_args := Some (new_args ep ca Mgr_ptr),
              trace := trace s @ [Timer_init d timeout_closure]\<rparr>))
       gpr_mu_unlock"
  using assms
  by (cases s)
    (simp add: grpc_handshake_manager_do_handshake_def gpr_mu_lock_def Let_def gpr_ref_def
      add.commute [of _ "2::int"]
      grpc_timer_init_def emit_def timeout_closure_def advance_closure_def done_closure_def
      new_args_def)

lemma do_handshake_empty:
  assumes "\<not> freed s" and "index s = 0" and "count s = 0" and "refs s \<noteq> - 1"
  shows "grpc_handshake_manager_do_handshake ep ca d acc f ud s =
     Inr (s\<lparr>mu := Mu_unlocked, refs := refs s + 1, mgr_call_next_handshaker := advance_closure,
            acceptor := acc, deadline_timer := Timer_cancelled,
            on_handshake_done := done_closure f, mgr_user_data := ud,
            hs_args := Some (new_args ep ca ud),
            trace := trace s @ [Timer_init d timeout_closure, Timer_cancel,
              Exec_ctx_sched (done_closure f) GRPC_ERROR_NONE (new_args ep ca ud)]\<rparr>)"
proof -
  let ?s = "s\<lparr>mu := Mu_locked, refs := refs s + 2, mgr_call_next_handshaker := advance_closure,
              acceptor := acc, deadline_timer := Timer_armed d timeout_closure,
              on_handshake_done := done_closure f, mgr_user_data := ud,
              hs_args := Some (new_args ep ca Mgr_ptr),
              trace := trace s @ [Timer_init d timeout_closure]\<rparr>"
  have "call_next_handshaker_locked GRPC_ERROR_NONE ?s =
     Inr (?s\<lparr>refs := refs ?s - 1, deadline_timer := Timer_cancelled,
            hs_args := Some ((new_args ep ca Mgr_ptr)\<lparr>user_data := mgr_user_data ?s\<rparr>),
            trace := trace ?s @ [Timer_cancel,
              Exec_ctx_sched (on_handshake_done ?s) GRPC_ERROR_NONE
                ((new_args ep ca Mgr_ptr)\<lparr>user_data := mgr_user_data ?s\<rparr>)]\<rparr>)"
    using assms by (intro locked_terminal) simp_all
  then show ?thesis using assms(1,2)
    by (simp add: do_handshake_unfold gpr_mu_unlock_def new_args_def)
qed

lemma do_handshake_start:
  assumes "\<not> freed s" and "index s = 0" and "registered_in s hs" and "hs \<noteq> []"
  shows "grpc_handshake_manager_do_handshake ep ca d acc f ud s =
     Inr (s\<lparr>mu := Mu_unlocked, refs := refs s + 2, index := 1,
            mgr_call_next_handshaker := advance_closure,
            acceptor := acc, deadline_timer := Timer_armed d timeout_closure,
            on_handshake_done := done_closure f, mgr_user_data := ud,
            hs_args := Some (new_args ep ca Mgr_ptr),
            trace := trace s @ [Timer_init d timeout_closure,
              Handshaker_do_handshake (hd hs) acc advance_closure Args_ptr]\<rparr>)"
proof -
  let ?s = "s\<lparr>mu := Mu_locked, refs := refs s + 2, mgr_call_next_handshaker := advance_closure,
              acceptor := acc, deadline_timer := Timer_armed d timeout_closure,
              on_handshake_done := done_closure f, mgr_user_data := ud,
              hs_args := Some (new_args ep ca Mgr_ptr),
              trace := trace s @ [Timer_init d timeout_closure]\<rparr>"
  have "registered_in ?s hs" "index ?s < length hs"
    using assms by (simp_all add: registered_in_def)
  from locked_continue [OF this] assms show ?thesis
    by (simp add: do_handshake_unfold gpr_mu_unlock_def hs_start_def hd_conv_nth)
qed

lemma on_timeout_keep:
  assumes "\<not> freed s" and "registered_in s hs" and "refs s \<noteq> 1"
  shows "on_timeout e s =
     Inr (s\<lparr>mu := (if e = GRPC_ERROR_NONE then Mu_unlocked else mu s), refs := refs s - 1,
            trace := trace s @ (if e = GRPC_ERROR_NONE then map Handshaker_shutdown hs else [])\<rparr>)"
proof (cases "e = GRPC_ERROR_NONE")
  case True
  let ?s = "s\<lparr>mu := Mu_unlocked, trace := trace s @ map Handshaker_shutdown hs\<rparr>"
  have "grpc_handshake_manager_unref ?s = Inr (?s\<lparr>refs := refs ?s - 1\<rparr>)"
    using assms by (intro unref_keep) simp_all
  with True shutdown_registered [OF assms(1,2)] show ?thesis
    by (simp add: on_timeout_def)
next
  case False
  with unref_keep [OF assms(1,3)] show ?thesis by (simp add: on_timeout_def)
qed

lemma on_timeout_last:
  assumes "\<not> freed s" and "registered_in s hs" and "refs s = 1"
  shows "on_timeout e s =
     Inr (s\<lparr>mu := Mu_destroyed, refs := 0, handshakers := [], freed := True,
            trace := trace s @ (if e = GRPC_ERROR_NONE then map Handshaker_shutdown hs else []) @
              map Handshaker_destroy hs @ [Gpr_free_handshakers, Gpr_mu_destroy, Gpr_free_mgr]\<rparr>)"
proof (cases "e = GRPC_ERROR_NONE")
  case True
  let ?s = "s\<lparr>mu := Mu_unlocked, trace := trace s @ map Handshaker_shutdown hs\<rparr>"
  have "grpc_handshake_manager_unref ?s =
     Inr (?s\<lparr>mu := Mu_destroyed, refs := 0, handshakers := [], freed := True,
            trace := trace ?s @ map Handshaker_destroy hs @
                       [Gpr_free_handshakers, Gpr_mu_destroy, Gpr_free_mgr]\<rparr>)"
    using assms by (intro unref_last) (simp_all add: registered_in_def)
  with True shutdown_registered [OF assms(1,2)] show ?thesis
    by (simp add: on_timeout_def)
next
  case False
  with unref_last [OF assms(1,3,2)] show ?thesis by (simp add: on_timeout_def)
qed

subsection \<open>Whole handshakes\<close>

lemma started_starts [simp]: "started (map (\<lambda>h. Handshaker_do_handshake h a c p) hs) = hs"
  by (induction hs) simp_all

lemma terminal_calls_starts [simp]:
  "terminal_calls (map (\<lambda>h. Handshaker_do_handshake h a c p) hs) = []"
  by (induction hs) simp_all

lemma started_shutdowns [simp]: "started (map Handshaker_shutdown hs) = []"
  by (induction hs) simp_all

lemma started_destroys [simp]: "started (map Handshaker_destroy hs) = []"
  by (induction hs) simp_all

lemma terminal_calls_shutdowns [simp]: "terminal_calls (map Handshaker_shutdown hs) = []"
  by (induction hs) simp_all

lemma terminal_calls_destroys [simp]: "terminal_calls (map Handshaker_destroy hs) = []"
  by (induction hs) simp_all

lemma chain_from_start:
  assumes f: "\<not> freed s" and r: "registered_in s hs" and i: "index s = 0"
    and c: "refs s \<noteq> - 1" and k: "1 \<le> k" "k \<le> length hs"
    and e: "e \<noteq> GRPC_ERROR_NONE \<or> k = length hs"
  shows "run (Do_handshake ep ca d acc f' ud #
              replicate (k - 1) (Call_next_handshaker GRPC_ERROR_NONE) @
              [Call_next_handshaker e]) s =
     Inr (s\<lparr>mu := Mu_unlocked, refs := refs s + 1, index := k,
            mgr_call_next_handshaker := advance_closure,
            acceptor := acc, deadline_timer := Timer_cancelled,
            on_handshake_done := done_closure f', mgr_user_data := ud,
            hs_args := Some (new_args ep ca ud),
            trace := trace s @ Timer_init d timeout_closure #
              map (\<lambda>h. Handshaker_do_handshake h acc advance_closure Args_ptr) (take k hs) @
              [Timer_cancel, Exec_ctx_sched (done_closure f') e (new_args ep ca ud)]\<rparr>)"
proof -
  from k obtain h hs' where hs: "hs = h # hs'" by (cases hs) auto
  let ?call = "Call_next_handshaker GRPC_ERROR_NONE"
  let ?s1 = "s\<lparr>mu := Mu_unlocked, refs := refs s + 2, index := 1,
            mgr_call_next_handshaker := advance_closure,
            acceptor := acc, deadline_timer := Timer_armed d timeout_closure,
            on_handshake_done := done_closure f', mgr_user_data := ud,
            hs_args := Some (new_args ep ca Mgr_ptr),
            trace := trace s @ [Timer_init d timeout_closure,
              Handshaker_do_handshake (hd hs) acc advance_closure Args_ptr]\<rparr>"
  have d: "grpc_handshake_manager_do_handshake ep ca d acc f' ud s = Inr ?s1"
    using f i r hs by (intro do_handshake_start) simp_all
  have "run (replicate (k - 1) ?call @ [Call_next_handshaker e]) ?s1 =
       Inr (?s1\<lparr>mu := Mu_unlocked, refs := refs ?s1 - 1, index := index ?s1 + (k - 1),
            deadline_timer := Timer_cancelled,
            hs_args := Some ((new_args ep ca Mgr_ptr)\<lparr>user_data := mgr_user_data ?s1\<rparr>),
            trace := trace ?s1 @ map (hs_start ?s1) (take (k - 1) (drop (index ?s1) hs)) @
              [Timer_cancel, Exec_ctx_sched (on_handshake_done ?s1) e
                 ((new_args ep ca Mgr_ptr)\<lparr>user_data := mgr_user_data ?s1\<rparr>)]\<rparr>)"
    using f r c k e by (intro chain_run) (auto simp: registered_in_def new_args_def)
  moreover have "take k hs = h # take (k - 1) hs'"
    using k hs by (cases k) simp_all
  ultimately show ?thesis using d hs k
    by (cases s) (simp add: hs_start_def new_args_def)
qed

lemma reports_shape:
  "rs \<noteq> [] \<Longrightarrow>
     reports rs = replicate (length (reports rs) - 1) GRPC_ERROR_NONE @ [last (reports rs)] \<and>
     1 \<le> length (reports rs) \<and> length (reports rs) \<le> length rs \<and>
     (last (reports rs) \<noteq> GRPC_ERROR_NONE \<or> length (reports rs) = length rs)"
proof (induction rs)
  case Nil
  then show ?case by simp
next
  case (Cons e es)
  show ?case
  proof (cases "e = GRPC_ERROR_NONE \<and> es \<noteq> []")
    case True
    with Cons.IH have ih:
      "reports es = replicate (length (reports es) - 1) GRPC_ERROR_NONE @ [last (reports es)]"
      "1 \<le> length (reports es)" "length (reports es) \<le> length es"
      "last (reports es) \<noteq> GRPC_ERROR_NONE \<or> length (reports es) = length es"
      by simp_all
    from ih(2) have ne: "reports es \<noteq> []" by auto
    from ih(2) have "replicate (length (reports es)) GRPC_ERROR_NONE =
        GRPC_ERROR_NONE # replicate (length (reports es) - 1) GRPC_ERROR_NONE"
      by (cases "length (reports es)") simp_all
    with True ih ne show ?thesis by simp
  next
    case False
    then show ?thesis by (cases "e = GRPC_ERROR_NONE") auto
  qed
qed

lemma chain_outcome:
  assumes f: "\<not> freed s" and r: "registered_in s hs" and i: "index s = 0"
    and c: "1 \<le> refs s" and l: "length rs = length hs"
  shows "run (Do_handshake ep ca d acc f' ud # map Call_next_handshaker (reports rs)) s =
     Inr (s\<lparr>mu := Mu_unlocked, refs := refs s + 1, index := length (reports rs),
            mgr_call_next_handshaker := advance_closure,
            acceptor := acc, deadline_timer := Timer_cancelled,
            on_handshake_done := done_closure f', mgr_user_data := ud,
            hs_args := Some (new_args ep ca ud),
            trace := trace s @ Timer_init d timeout_closure #
              map (\<lambda>h. Handshaker_do_handshake h acc advance_closure Args_ptr)
                (take (length (reports rs)) hs) @
              [Timer_cancel, Exec_ctx_sched (done_closure f') (outcome rs) (new_args ep ca ud)]\<rparr>)"
proof (cases "rs = []")
  case True
  with l r have "count s = 0" by (simp add: registered_in_count)
  moreover from c have "refs s \<noteq> - 1" by simp
  ultimately show ?thesis
    using do_handshake_empty [OF f i, of ep ca d acc f' ud] True i
    by (cases s) (simp add: outcome_def)
next
  case False
  note sh = reports_shape [OF False]
  let ?k = "length (reports rs)"
  from c have c': "refs s \<noteq> - 1" by simp
  from sh l have k: "1 \<le> ?k" "?k \<le> length hs"
    and e: "last (reports rs) \<noteq> GRPC_ERROR_NONE \<or> ?k = length hs"
    by simp_all
  from sh have ne: "reports rs \<noteq> []" by auto
  have "map Call_next_handshaker (reports rs) =
      replicate (?k - 1) (Call_next_handshaker GRPC_ERROR_NONE) @
      [Call_next_handshaker (last (reports rs))]"
    using sh by (metis list.simps(8,9) map_append map_replicate)
  with chain_from_start [OF f r i c' k e, of ep ca d acc f' ud] ne show ?thesis
    by (simp add: outcome_def)
qed


subsection \<open>What every sequence of calls preserves\<close>

lemma destructions_append [simp]: "destructions (xs @ ys) = destructions xs @ destructions ys"
  by (simp add: destructions_def)

lemma destructions_simps [simp]:
  "destructions [] = []"
  "destructions (Gpr_realloc n # es) = destructions es"
  "destructions (Handshaker_do_handshake h a c p # es) = destructions es"
  "destructions (Handshaker_shutdown h # es) = destructions es"
  "destructions (Timer_init d c # es) = destructions es"
  "destructions (Timer_cancel # es) = destructions es"
  "destructions (Exec_ctx_sched c e g # es) = destructions es"
  by (simp_all add: destructions_def)

lemma destructions_shutdowns [simp]: "destructions (map Handshaker_shutdown hs) = []"
  by (induction hs) simp_all

lemma destructions_destruction_of [simp]: "destructions (destruction_of hs) = destruction_of hs"
  by (induction hs) (simp_all add: destructions_def destruction_of_def)

text \<open>
  When the chain holds the last reference at the terminal condition, \<open>unref\<close> frees the
  manager inside \<open>call_next_handshaker_locked\<close> and \<open>call_next_handshaker\<close> then unlocks
  the mutex of the freed manager. This needs the timer callback and the caller's destroy
  to come before the last report of the chain.
\<close>

lemma advance_terminal_last:
  assumes "\<not> freed s" and "registered_in s hs" and "index s \<le> count s"
    and "e \<noteq> GRPC_ERROR_NONE \<or> index s = count s"
    and "hs_args s = Some a" and "user_data a = Mgr_ptr" and "refs s = 1"
  shows "call_next_handshaker e s = Inl Use_after_free"
proof -
  let ?s = "s\<lparr>mu := Mu_locked, deadline_timer := Timer_cancelled,
            hs_args := Some (a\<lparr>user_data := mgr_user_data s\<rparr>),
            trace := trace s @ [Timer_cancel,
              Exec_ctx_sched (on_handshake_done s) e (a\<lparr>user_data := mgr_user_data s\<rparr>)]\<rparr>"
  have "call_next_handshaker_locked e (s\<lparr>mu := Mu_locked\<rparr>) = grpc_handshake_manager_unref ?s"
    using assms(3,4,5)
    by (auto simp: call_next_handshaker_locked_def grpc_timer_cancel_def emit_def
        grpc_exec_ctx_sched_def GRPC_ERROR_REF_def Let_def)
  moreover have "grpc_handshake_manager_unref ?s =
     Inr (?s\<lparr>mu := Mu_destroyed, refs := 0, handshakers := [], freed := True,
            trace := trace ?s @ map Handshaker_destroy hs @
                       [Gpr_free_handshakers, Gpr_mu_destroy, Gpr_free_mgr]\<rparr>)"
    using assms(1,2,7) by (intro unref_last) (simp_all add: registered_in_def)
  ultimately show ?thesis using assms(1,5,6)
    by (simp add: call_next_handshaker_def gpr_mu_lock_def gpr_mu_unlock_def)
qed

lemma step_freed: "freed s \<Longrightarrow> step c s = Inl Use_after_free \<or> step c s = Inl Bad_pointer"
  by (cases c)
    (auto simp: grpc_handshake_manager_add_def gpr_mu_lock_def
      grpc_handshake_manager_destroy_def grpc_handshake_manager_unref_def
      grpc_handshake_manager_shutdown_def grpc_handshake_manager_do_handshake_def
      call_next_handshaker_def on_timeout_def Let_def split: option.splits)

lemma inv_live:
  "\<not> freed s \<Longrightarrow> inv hs s \<Longrightarrow>
     1 \<le> refs s \<and> registered_in s hs \<and> index s \<le> count s \<and> destructions (trace s) = []"
  by (simp add: inv_def)

lemma add_step_ok:
  assumes f: "\<not> freed s" and v: "inv hs s"
  shows "step_ok (hs @ [h]) s (grpc_handshake_manager_add h s)"
proof -
  from inv_live [OF f v] have c: "1 \<le> refs s" and r: "registered_in s hs"
    and i: "index s \<le> count s" and d: "destructions (trace s) = []"
    by simp_all
  from r have n: "count s = length hs" by (rule registered_in_count)
  show ?thesis
  proof (cases "realloc_count_of (count s) > 0")
    case True
    let ?a = "gpr_realloc (handshakers s) (realloc_count_of (count s))"
    let ?s' = "s\<lparr>mu := Mu_unlocked, handshakers := ?a[count s := Some h],
                 count := count s + 1,
                 trace := trace s @ [Gpr_realloc (realloc_count_of (count s))]\<rparr>"
    from True have lt: "count s < realloc_count_of (count s)"
      by (auto simp: realloc_count_of_def split: if_splits)
    have "take (length hs) ?a = take (length hs) (handshakers s)"
      using lt n registered_in_le [OF r] by (simp add: take_gpr_realloc)
    then have "registered_in ?s' (hs @ [h])"
      using lt n by (intro registered_in_snoc [OF r, where a = ?a]) simp_all
    with add_realloc [OF f True, of h] f c i d show ?thesis
      by (simp add: step_ok_def inv_def)
  next
    case False
    then have z: "realloc_count_of (count s) = 0" by simp
    show ?thesis
    proof (cases "count s < length (handshakers s)")
      case True
      let ?s' = "s\<lparr>mu := Mu_unlocked, handshakers := (handshakers s)[count s := Some h],
                   count := count s + 1\<rparr>"
      have "registered_in ?s' (hs @ [h])"
        using True n by (intro registered_in_snoc [OF r, where a = "handshakers s"]) simp_all
      with add_no_realloc [OF f z True, of h] f c i d show ?thesis
        by (simp add: step_ok_def inv_def)
    next
      case False
      from add_out_of_bounds [OF f z False, of h] show ?thesis
        by (simp add: step_ok_def index_assert_def)
    qed
  qed
qed

lemma unref_step_ok:
  assumes f: "\<not> freed s" and v: "inv hs s"
  shows "step_ok hs s (grpc_handshake_manager_unref s)"
proof -
  from inv_live [OF f v] have c: "1 \<le> refs s" and r: "registered_in s hs"
    and i: "index s \<le> count s" and d: "destructions (trace s) = []"
    by simp_all
  show ?thesis
  proof (cases "refs s = 1")
    case True
    from unref_last [OF f True r] d i show ?thesis
      by (simp add: step_ok_def inv_def destruction_of_def destructions_def)
  next
    case False
    from unref_keep [OF f False] f c r i d False show ?thesis
      by (simp add: step_ok_def inv_def registered_in_def)
  qed
qed

lemma shutdown_step_ok:
  assumes f: "\<not> freed s" and v: "inv hs s"
  shows "step_ok hs s (grpc_handshake_manager_shutdown s)"
proof -
  from inv_live [OF f v] have c: "1 \<le> refs s" and r: "registered_in s hs"
    and i: "index s \<le> count s" and d: "destructions (trace s) = []"
    by simp_all
  from shutdown_registered [OF f r] f c r i d show ?thesis
    by (simp add: step_ok_def inv_def registered_in_def)
qed

lemma on_timeout_step_ok:
  assumes f: "\<not> freed s" and v: "inv hs s"
  shows "step_ok hs s (on_timeout e s)"
proof -
  from inv_live [OF f v] have c: "1 \<le> refs s" and r: "registered_in s hs"
    and i: "index s \<le> count s" and d: "destructions (trace s) = []"
    by simp_all
  show ?thesis
  proof (cases "refs s = 1")
    case True
    from on_timeout_last [OF f r True, of e] d i show ?thesis
      by (simp add: step_ok_def inv_def destruction_of_def destructions_def)
  next
    case False
    from on_timeout_keep [OF f r False, of e] f c r i d False show ?thesis
      by (simp add: step_ok_def inv_def registered_in_def)
  qed
qed

lemma do_handshake_step_ok:
  assumes f: "\<not> freed s" and v: "inv hs s"
  shows "step_ok hs s (grpc_handshake_manager_do_handshake ep ca dl acc g ud s)"
proof -
  from inv_live [OF f v] have c: "1 \<le> refs s" and r: "registered_in s hs"
    and i: "index s \<le> count s" and d: "destructions (trace s) = []"
    by simp_all
  from r have n: "count s = length hs" by (rule registered_in_count)
  show ?thesis
  proof (cases "index s = 0")
    case False
    with f have "grpc_handshake_manager_do_handshake ep ca dl acc g ud s =
        Inl (Assert_failed ''mgr->index == 0'')"
      by (simp add: grpc_handshake_manager_do_handshake_def gpr_mu_lock_def Let_def)
    then show ?thesis by (simp add: step_ok_def index_assert_def)
  next
    case True
    show ?thesis
    proof (cases "hs = []")
      case e: True
      with n have z: "count s = 0" by simp
      from c have "refs s \<noteq> - 1" by simp
      from do_handshake_empty [OF f True z this, of ep ca dl acc g ud] f c r i d z show ?thesis
        by (simp add: step_ok_def inv_def registered_in_def)
    next
      case False
      from False have "1 \<le> length hs" by (cases hs) simp_all
      with do_handshake_start [OF f True r False, of ep ca dl acc g ud] f c r i d n True
      show ?thesis
        by (simp add: step_ok_def inv_def registered_in_def)
    qed
  qed
qed

lemma call_next_step_ok:
  assumes f: "\<not> freed s" and v: "inv hs s"
  shows "step_ok hs s (call_next_handshaker e s)"
proof -
  from inv_live [OF f v] have c: "1 \<le> refs s" and r: "registered_in s hs"
    and i: "index s \<le> count s" and d: "destructions (trace s) = []"
    by simp_all
  from r have n: "count s = length hs" by (rule registered_in_count)
  show ?thesis
  proof (cases "hs_args s")
    case None
    then show ?thesis by (simp add: call_next_handshaker_def step_ok_def index_assert_def)
  next
    case (Some a)
    show ?thesis
    proof (cases "user_data a = Mgr_ptr")
      case False
      with Some show ?thesis
        by (simp add: call_next_handshaker_def step_ok_def index_assert_def)
    next
      case True
      show ?thesis
      proof (cases "e \<noteq> GRPC_ERROR_NONE \<or> index s = count s")
        case t: True
        show ?thesis
        proof (cases "refs s = 1")
          case True
          from advance_terminal_last [OF f r i t Some \<open>user_data a = Mgr_ptr\<close> True]
          show ?thesis by (simp add: step_ok_def index_assert_def)
        next
          case False
          from advance_terminal [OF f i t Some \<open>user_data a = Mgr_ptr\<close> False] f c r i d False
          show ?thesis by (simp add: step_ok_def inv_def registered_in_def)
        qed
      next
        case False
        then have e: "e = GRPC_ERROR_NONE" and lt: "index s < length hs" using i n by simp_all
        from advance_continue [OF f r lt Some True] e f c r i d lt n show ?thesis
          by (simp add: step_ok_def inv_def registered_in_def hs_start_def)
      qed
    qed
  qed
qed

lemma step_step_ok:
  assumes "inv hs s"
  shows "step_ok (hs @ added_by [c]) s (step c s)"
proof (cases "freed s")
  case True
  from step_freed [OF True, of c] show ?thesis
    by (auto simp: step_ok_def index_assert_def)
next
  case False
  show ?thesis
  proof (cases c)
    case (Add h)
    with add_step_ok [OF False assms, of h] show ?thesis by simp
  next
    case Destroy
    with unref_step_ok [OF False assms] show ?thesis
      by (simp add: grpc_handshake_manager_destroy_def)
  next
    case Shutdown
    with shutdown_step_ok [OF False assms] show ?thesis by simp
  next
    case (Do_handshake ep ca dl acc g ud)
    with do_handshake_step_ok [OF False assms, of ep ca dl acc g ud] show ?thesis by simp
  next
    case (Call_next_handshaker e)
    with call_next_step_ok [OF False assms, of e] show ?thesis by simp
  next
    case (On_timeout e)
    with on_timeout_step_ok [OF False assms, of e] show ?thesis by simp
  qed
qed

lemma added_by_append [simp]: "added_by (xs @ ys) = added_by xs @ added_by ys"
  by (induction xs rule: added_by.induct) simp_all

lemma run_inv:
  assumes "inv hs s"
  shows "case run cs s of Inl e \<Rightarrow> e \<noteq> index_assert
         | Inr s' \<Rightarrow> inv (hs @ added_by cs) s' \<and> index s \<le> index s'"
  using assms
proof (induction cs arbitrary: hs s)
  case Nil
  then show ?case by simp
next
  case (Cons c cs)
  note ok = step_step_ok [OF Cons.prems, of c]
  show ?case
  proof (cases "step c s")
    case (Inl e)
    with ok show ?thesis by (simp add: step_ok_def)
  next
    case (Inr s1)
    with ok have v: "inv (hs @ added_by [c]) s1" and m: "index s \<le> index s1"
      by (simp_all add: step_ok_def)
    have a: "hs @ added_by (c # cs) = (hs @ added_by [c]) @ added_by cs"
      using added_by_append [of "[c]" cs] by simp
    from Cons.IH [OF v] Inr m show ?thesis
      by (auto simp: a split: sum.splits)
  qed
qed

lemma inv_create: "inv [] grpc_handshake_manager_create"
  by (simp add: inv_def grpc_handshake_manager_create_def registered_in_def holds_prefix_def)

lemma added_by_adds [simp]: "added_by (map Add hs) = hs"
  by (induction hs) simp_all

lemma destructions_starts [simp]:
  "destructions (map (\<lambda>h. Handshaker_do_handshake h a c p) hs) = []"
  by (induction hs) simp_all

subsection \<open>The owners of the manager\<close>

lemma armed_append [simp]: "armed (xs @ ys) = armed xs + armed ys"
  by (induction xs rule: armed.induct) simp_all

lemma reported_append [simp]: "reported (xs @ ys) = reported xs + reported ys"
  by (induction xs rule: reported.induct) simp_all

lemma timed_out_append [simp]: "timed_out (xs @ ys) = timed_out xs + timed_out ys"
  by (induction xs rule: timed_out.induct) simp_all

lemma armed_shutdowns [simp]: "armed (map Handshaker_shutdown hs) = 0"
  by (induction hs) simp_all

lemma armed_destroys [simp]: "armed (map Handshaker_destroy hs) = 0"
  by (induction hs) simp_all

lemma destructions_destroys [simp]:
  "destructions (map Handshaker_destroy hs @ [Gpr_free_handshakers, Gpr_mu_destroy, Gpr_free_mgr]) =
     destruction_of hs"
  using destructions_destruction_of [of hs] by (simp add: destruction_of_def)

lemma locked_terminal_last:
  assumes "\<not> freed s" and "registered_in s hs" and "index s \<le> count s"
    and "e \<noteq> GRPC_ERROR_NONE \<or> index s = count s"
    and "hs_args s = Some a" and "refs s = 1"
  shows "call_next_handshaker_locked e s =
     Inr (s\<lparr>mu := Mu_destroyed, refs := 0, handshakers := [], freed := True,
            deadline_timer := Timer_cancelled,
            hs_args := Some (a\<lparr>user_data := mgr_user_data s\<rparr>),
            trace := trace s @ [Timer_cancel,
              Exec_ctx_sched (on_handshake_done s) e (a\<lparr>user_data := mgr_user_data s\<rparr>)] @
              destruction_of hs\<rparr>)"
proof -
  let ?s = "s\<lparr>deadline_timer := Timer_cancelled,
            hs_args := Some (a\<lparr>user_data := mgr_user_data s\<rparr>),
            trace := trace s @ [Timer_cancel,
              Exec_ctx_sched (on_handshake_done s) e (a\<lparr>user_data := mgr_user_data s\<rparr>)]\<rparr>"
  have "call_next_handshaker_locked e s = grpc_handshake_manager_unref ?s"
    using assms(3,4,5)
    by (auto simp: call_next_handshaker_locked_def grpc_timer_cancel_def emit_def
        grpc_exec_ctx_sched_def GRPC_ERROR_REF_def Let_def)
  moreover have "grpc_handshake_manager_unref ?s =
     Inr (?s\<lparr>mu := Mu_destroyed, refs := 0, handshakers := [], freed := True,
            trace := trace ?s @ map Handshaker_destroy hs @
                       [Gpr_free_handshakers, Gpr_mu_destroy, Gpr_free_mgr]\<rparr>)"
    using assms(1,2,6) by (intro unref_last) (simp_all add: registered_in_def)
  ultimately show ?thesis by (cases s) (simp add: destruction_of_def)
qed

lemma destructions_destroy_map [simp]:
  "destructions (map Handshaker_destroy hs) = map Handshaker_destroy hs"
  by (induction hs) (simp_all add: destructions_def)

lemma destructions_frees [simp]:
  "destructions [Gpr_free_handshakers, Gpr_mu_destroy, Gpr_free_mgr] =
     [Gpr_free_handshakers, Gpr_mu_destroy, Gpr_free_mgr]"
  by (simp add: destructions_def)

lemma acctD:
  assumes "acct past s"
  shows "\<not> freed s" "registered_in s (added_by past)"
    "cap_ok (length (added_by past)) (length (handshakers s))"
    "index s = length (started (trace s))" "index s \<le> count s"
    "destructions (trace s) = []" "refs s = owners past s" "1 \<le> refs s"
    "timed_out past \<le> armed (trace s)"
    "reported past \<le> length (started (trace s))"
    "length (started (trace s)) \<le> reported past + 1"
    "reported past < length (started (trace s)) \<Longrightarrow>
       map_option user_data (hs_args s) = Some Mgr_ptr"
  using assms by (simp_all add: acct_def)

lemma add_acct:
  assumes a: "acct past s" and d: "Destroy \<notin> set past"
  shows "\<exists>s'. grpc_handshake_manager_add h s = Inr s' \<and> acct (past @ [Add h]) s'"
proof -
  note A = acctD [OF a]
  let ?hs = "added_by past"
  from A(2) have n: "count s = length ?hs" by (rule registered_in_count)
  note st = cap_ok_step [OF A(3)]
  show ?thesis
  proof (cases "realloc_count_of (length ?hs) > 0")
    case True
    let ?a = "gpr_realloc (handshakers s) (realloc_count_of (length ?hs))"
    let ?s' = "s\<lparr>mu := Mu_unlocked, handshakers := ?a[length ?hs := Some h],
                 count := length ?hs + 1,
                 trace := trace s @ [Gpr_realloc (realloc_count_of (length ?hs))]\<rparr>"
    from True A(1) n have e: "grpc_handshake_manager_add h s = Inr ?s'"
      using add_realloc [of s h] by simp
    from st True have lt: "length ?hs < realloc_count_of (length ?hs)" by simp
    have "take (length ?hs) ?a = take (length ?hs) (handshakers s)"
      using lt registered_in_le [OF A(2)] by (simp add: take_gpr_realloc)
    then have r: "registered_in ?s' (?hs @ [h])"
      using lt by (intro registered_in_snoc [OF A(2), where a = ?a]) simp_all
    have "owners (past @ [Add h]) ?s' = owners past s"
      by (simp add: owners_def)
    then have "acct (past @ [Add h]) ?s'"
      using r st True A d n by (simp add: acct_def)
    with e show ?thesis by blast
  next
    case False
    let ?s' = "s\<lparr>mu := Mu_unlocked, handshakers := (handshakers s)[length ?hs := Some h],
                 count := length ?hs + 1\<rparr>"
    from st False have lt: "length ?hs < length (handshakers s)" by simp
    with False A(1) n have e: "grpc_handshake_manager_add h s = Inr ?s'"
      using add_no_realloc [of s h] by simp
    have r: "registered_in ?s' (?hs @ [h])"
      using lt by (intro registered_in_snoc [OF A(2), where a = "handshakers s"]) simp_all
    have "owners (past @ [Add h]) ?s' = owners past s"
      by (simp add: owners_def)
    then have "acct (past @ [Add h]) ?s'"
      using r st False A d n by (simp add: acct_def)
    with e show ?thesis by blast
  qed
qed

lemma shutdown_acct:
  assumes a: "acct past s" and d: "Destroy \<notin> set past"
  shows "\<exists>s'. grpc_handshake_manager_shutdown s = Inr s' \<and> acct (past @ [Shutdown]) s'"
proof -
  note A = acctD [OF a]
  let ?s' = "s\<lparr>mu := Mu_unlocked,
               trace := trace s @ map Handshaker_shutdown (added_by past)\<rparr>"
  have "owners (past @ [Shutdown]) ?s' = owners past s"
    by (simp add: owners_def)
  then have "acct (past @ [Shutdown]) ?s'"
    using A d by (simp add: acct_def registered_in_def)
  with shutdown_registered [OF A(1,2)] show ?thesis by simp
qed

lemma destroy_acct:
  assumes a: "acct past s" and d: "Destroy \<notin> set past"
  shows "\<exists>s'. grpc_handshake_manager_destroy s = Inr s' \<and>
           (acct (past @ [Destroy]) s' \<or> finished (past @ [Destroy]) s')"
proof -
  note A = acctD [OF a]
  show ?thesis
  proof (cases "refs s = 1")
    case True
    let ?s' = "s\<lparr>mu := Mu_destroyed, refs := 0, handshakers := [], freed := True,
            trace := trace s @ map Handshaker_destroy (added_by past) @
                       [Gpr_free_handshakers, Gpr_mu_destroy, Gpr_free_mgr]\<rparr>"
    from True A(7,9,10) d have z: "timed_out past = armed (trace s)"
      "reported past = length (started (trace s))"
      by (simp_all add: owners_def)
    have "finished (past @ [Destroy]) ?s'"
      using A(6) z by (simp add: finished_def destruction_of_def)
    with unref_last [OF A(1) True A(2)] show ?thesis
      by (simp add: grpc_handshake_manager_destroy_def)
  next
    case False
    let ?s' = "s\<lparr>refs := refs s - 1\<rparr>"
    have "owners (past @ [Destroy]) ?s' = owners past s - 1"
      using d by (simp add: owners_def)
    then have "acct (past @ [Destroy]) ?s'"
      using A d False by (simp add: acct_def registered_in_def)
    with unref_keep [OF A(1) False] show ?thesis
      by (simp add: grpc_handshake_manager_destroy_def)
  qed
qed

lemma on_timeout_acct:
  assumes a: "acct past s" and d: "timed_out past < armed (trace s)"
  shows "\<exists>s'. on_timeout e s = Inr s' \<and>
           (acct (past @ [On_timeout e]) s' \<or> finished (past @ [On_timeout e]) s')"
proof -
  note A = acctD [OF a]
  show ?thesis
  proof (cases "refs s = 1")
    case True
    let ?s' = "s\<lparr>mu := Mu_destroyed, refs := 0, handshakers := [], freed := True,
            trace := trace s @
              (if e = GRPC_ERROR_NONE then map Handshaker_shutdown (added_by past) else []) @
              map Handshaker_destroy (added_by past) @
              [Gpr_free_handshakers, Gpr_mu_destroy, Gpr_free_mgr]\<rparr>"
    from True A(7,9,10) d have z: "Destroy \<in> set past" "Suc (timed_out past) = armed (trace s)"
      "reported past = length (started (trace s))"
      by (simp_all add: owners_def split: if_splits)
    have "finished (past @ [On_timeout e]) ?s'"
      using A(6) z by (simp add: finished_def destruction_of_def)
    with on_timeout_last [OF A(1,2) True, of e] show ?thesis by auto
  next
    case False
    let ?s' = "s\<lparr>mu := (if e = GRPC_ERROR_NONE then Mu_unlocked else mu s), refs := refs s - 1,
            trace := trace s @
              (if e = GRPC_ERROR_NONE then map Handshaker_shutdown (added_by past) else [])\<rparr>"
    have "owners (past @ [On_timeout e]) ?s' = owners past s - 1"
      by (simp add: owners_def)
    then have "acct (past @ [On_timeout e]) ?s'"
      using A d False by (simp add: acct_def registered_in_def)
    with on_timeout_keep [OF A(1,2) False, of e] show ?thesis by auto
  qed
qed

lemma do_handshake_acct:
  assumes a: "acct past s" and d: "Destroy \<notin> set past" and i: "index s = 0"
  shows "\<exists>s'. grpc_handshake_manager_do_handshake ep ca dl acc g ud s = Inr s' \<and>
           acct (past @ [Do_handshake ep ca dl acc g ud]) s'"
proof -
  note A = acctD [OF a]
  from A(2) have n: "count s = length (added_by past)" by (rule registered_in_count)
  from A(4) i have st: "started (trace s) = []" by simp
  with A(10) have rp: "reported past = 0" by simp
  show ?thesis
  proof (cases "added_by past = []")
    case True
    with n have z: "count s = 0" by simp
    from A(8) have "refs s \<noteq> - 1" by simp
    note e = do_handshake_empty [OF A(1) i z this, of ep ca dl acc g ud]
    let ?s' = "s\<lparr>mu := Mu_unlocked, refs := refs s + 1,
            mgr_call_next_handshaker := advance_closure,
            acceptor := acc, deadline_timer := Timer_cancelled,
            on_handshake_done := done_closure g, mgr_user_data := ud,
            hs_args := Some (new_args ep ca ud),
            trace := trace s @ [Timer_init dl timeout_closure, Timer_cancel,
              Exec_ctx_sched (done_closure g) GRPC_ERROR_NONE (new_args ep ca ud)]\<rparr>"
    have "owners (past @ [Do_handshake ep ca dl acc g ud]) ?s' = owners past s + 1"
      by (simp add: owners_def)
    then have "acct (past @ [Do_handshake ep ca dl acc g ud]) ?s'"
      using A d i st rp by (simp add: acct_def registered_in_def)
    with e show ?thesis by simp
  next
    case False
    note e = do_handshake_start [OF A(1) i A(2) False, of ep ca dl acc g ud]
    let ?s' = "s\<lparr>mu := Mu_unlocked, refs := refs s + 2, index := 1,
            mgr_call_next_handshaker := advance_closure,
            acceptor := acc, deadline_timer := Timer_armed dl timeout_closure,
            on_handshake_done := done_closure g, mgr_user_data := ud,
            hs_args := Some (new_args ep ca Mgr_ptr),
            trace := trace s @ [Timer_init dl timeout_closure,
              Handshaker_do_handshake (hd (added_by past)) acc advance_closure Args_ptr]\<rparr>"
    have "owners (past @ [Do_handshake ep ca dl acc g ud]) ?s' = owners past s + 2"
      using st by (simp add: owners_def)
    moreover from False have "1 \<le> length (added_by past)"
      by (cases "added_by past") simp_all
    ultimately have "acct (past @ [Do_handshake ep ca dl acc g ud]) ?s'"
      using A d i st rp n by (simp add: acct_def registered_in_def new_args_def)
    with e show ?thesis by simp
  qed
qed

lemma call_next_acct:
  assumes a: "acct past s" and d: "reported past < length (started (trace s))"
  shows "(\<exists>s'. call_next_handshaker e s = Inr s' \<and> acct (past @ [Call_next_handshaker e]) s')
         \<or> chain_last past s e"
proof -
  note A = acctD [OF a]
  from A(2) have n: "count s = length (added_by past)" by (rule registered_in_count)
  from A(12) [OF d] obtain x where x: "hs_args s = Some x" "user_data x = Mgr_ptr" by auto
  from d A(11) have fl: "length (started (trace s)) = reported past + 1" by simp
  show ?thesis
  proof (cases "e \<noteq> GRPC_ERROR_NONE \<or> index s = count s")
    case t: True
    show ?thesis
    proof (cases "refs s = 1")
      case True
      from True A(7,9) fl have z: "Destroy \<in> set past"
        by (simp add: owners_def split: if_splits)
      have l: "\<not> freed (s\<lparr>mu := Mu_locked\<rparr>)"
        "registered_in (s\<lparr>mu := Mu_locked\<rparr>) (added_by past)"
        "index (s\<lparr>mu := Mu_locked\<rparr>) \<le> count (s\<lparr>mu := Mu_locked\<rparr>)"
        "e \<noteq> GRPC_ERROR_NONE \<or> index (s\<lparr>mu := Mu_locked\<rparr>) = count (s\<lparr>mu := Mu_locked\<rparr>)"
        "hs_args (s\<lparr>mu := Mu_locked\<rparr>) = Some x" "refs (s\<lparr>mu := Mu_locked\<rparr>) = 1"
        using A t x True by simp_all
      from locked_terminal_last [OF l] advance_terminal_last [OF A(1,2,5) t x True] A True z
      have "chain_last past s e" by (simp add: chain_last_def)
      then show ?thesis ..
    next
      case False
      let ?s' = "s\<lparr>mu := Mu_unlocked, refs := refs s - 1, deadline_timer := Timer_cancelled,
            hs_args := Some (x\<lparr>user_data := mgr_user_data s\<rparr>),
            trace := trace s @ [Timer_cancel,
              Exec_ctx_sched (on_handshake_done s) e (x\<lparr>user_data := mgr_user_data s\<rparr>)]\<rparr>"
      have "owners (past @ [Call_next_handshaker e]) ?s' = owners past s - 1"
        by (simp add: owners_def)
      then have "acct (past @ [Call_next_handshaker e]) ?s'"
        using A fl False by (simp add: acct_def registered_in_def)
      with advance_terminal [OF A(1,5) t x False] show ?thesis by simp
    qed
  next
    case False
    then have e: "e = GRPC_ERROR_NONE" and lt: "index s < length (added_by past)"
      using A(5) n by simp_all
    let ?s' = "s\<lparr>mu := Mu_unlocked, index := index s + 1,
            trace := trace s @ [hs_start s (added_by past ! index s)]\<rparr>"
    have "owners (past @ [Call_next_handshaker e]) ?s' = owners past s"
      by (simp add: owners_def hs_start_def)
    then have "acct (past @ [Call_next_handshaker e]) ?s'"
      using A fl lt n x by (simp add: acct_def registered_in_def hs_start_def)
    with advance_continue [OF A(1,2) lt x] e show ?thesis by simp
  qed
qed

lemma finished_no_call: "finished past s \<Longrightarrow> \<not> allowed past s c"
  by (cases c) (simp_all add: finished_def)

lemma finished_conforms: "finished past s \<Longrightarrow> conforms past cs s \<Longrightarrow> cs = []"
  by (cases cs) (simp_all add: finished_no_call)

lemma acct_step:
  assumes "acct past s" and "allowed past s c"
  shows "(\<exists>s'. step c s = Inr s' \<and> (acct (past @ [c]) s' \<or> finished (past @ [c]) s'))
         \<or> (\<exists>e. c = Call_next_handshaker e \<and> chain_last past s e)"
proof (cases c)
  case (Add h)
  with add_acct [OF assms(1), of h] assms(2) show ?thesis by auto
next
  case Destroy
  with destroy_acct [OF assms(1)] assms(2) show ?thesis by auto
next
  case Shutdown
  with shutdown_acct [OF assms(1)] assms(2) show ?thesis by auto
next
  case (Do_handshake ep ca dl acc g ud)
  with do_handshake_acct [OF assms(1), of ep ca dl acc g ud] assms(2) show ?thesis by auto
next
  case (Call_next_handshaker e)
  with call_next_acct [OF assms(1), of e] assms(2) show ?thesis by auto
next
  case (On_timeout e)
  with on_timeout_acct [OF assms(1), of e] assms(2) show ?thesis by auto
qed

lemma acct_run:
  assumes "acct past s" and "conforms past cs s"
  shows "(\<exists>s'. run cs s = Inr s' \<and> (acct (past @ cs) s' \<or> finished (past @ cs) s'))
         \<or> (run cs s = Inl Use_after_free \<and>
             (\<exists>pre e rest t. cs = pre @ Call_next_handshaker e # rest \<and>
                run pre s = Inr t \<and> chain_last (past @ pre) t e))"
  using assms
proof (induction cs arbitrary: past s)
  case Nil
  then show ?case by simp
next
  case (Cons c cs)
  from Cons.prems(2) have al: "allowed past s c" by simp
  from acct_step [OF Cons.prems(1) al]
  consider s' where "step c s = Inr s'" "acct (past @ [c]) s'"
    | s' where "step c s = Inr s'" "finished (past @ [c]) s'"
    | e where "c = Call_next_handshaker e" "chain_last past s e"
    by blast
  then show ?case
  proof cases
    case 1
    with Cons.prems(2) have cf: "conforms (past @ [c]) cs s'" by simp
    from Cons.IH [OF 1(2) cf] show ?thesis
    proof
      assume "\<exists>t. run cs s' = Inr t \<and>
        (acct ((past @ [c]) @ cs) t \<or> finished ((past @ [c]) @ cs) t)"
      with 1(1) show ?thesis by simp
    next
      assume "run cs s' = Inl Use_after_free \<and>
             (\<exists>pre e rest t. cs = pre @ Call_next_handshaker e # rest \<and>
                run pre s' = Inr t \<and> chain_last ((past @ [c]) @ pre) t e)"
      then obtain pre e rest t where p: "run cs s' = Inl Use_after_free"
        "cs = pre @ Call_next_handshaker e # rest" "run pre s' = Inr t"
        "chain_last ((past @ [c]) @ pre) t e" by blast
      have "c # cs = (c # pre) @ Call_next_handshaker e # rest" using p(2) by simp
      moreover have "run (c # pre) s = Inr t" using 1(1) p(3) by simp
      moreover have "chain_last (past @ c # pre) t e" using p(4) by simp
      moreover have "run (c # cs) s = Inl Use_after_free" using 1(1) p(1) by simp
      ultimately show ?thesis by blast
    qed
  next
    case 2
    with Cons.prems(2) have "conforms (past @ [c]) cs s'" by simp
    from finished_conforms [OF 2(2) this] have "cs = []" .
    with 2 show ?thesis by simp
  next
    case 3
    then have "run (c # cs) s = Inl Use_after_free" by (simp add: chain_last_def)
    moreover have "c # cs = [] @ Call_next_handshaker e # cs" using 3(1) by simp
    moreover have "run [] s = Inr s" by simp
    moreover have "chain_last (past @ []) s e" using 3(2) by simp
    ultimately show ?thesis by blast
  qed
qed

lemma acct_create: "acct [] grpc_handshake_manager_create"
  by (simp add: acct_def owners_def grpc_handshake_manager_create_def registered_in_def
      holds_prefix_def cap_ok_def)

section \<open>The claims\<close>

text \<open>
  C9. After any sequence of adds on a fresh manager, one more add reallocates the array
  exactly when the count is 0 (to 2 slots) or is at least 2 and a power of two (to twice
  the count); it stores the handshaker at the index of the old count, keeps the earlier
  ones and raises the count by one.
\<close>

theorem add_growth_schedule:
  "\<exists>s s'. run (map Add hs) grpc_handshake_manager_create = Inr s \<and> count s = length hs \<and>
     grpc_handshake_manager_add h s = Inr s' \<and>
     trace s' = trace s @
       (if length hs = 0 then [Gpr_realloc 2]
        else if 2 \<le> length hs \<and> (\<exists>k. length hs = 2 ^ k) then [Gpr_realloc (2 * length hs)]
        else []) \<and>
     length (handshakers s') =
       (if length hs = 0 then 2
        else if 2 \<le> length hs \<and> (\<exists>k. length hs = 2 ^ k) then 2 * length hs
        else length (handshakers s)) \<and>
     length hs < length (handshakers s') \<and> handshakers s' ! length hs = Some h \<and>
     take (length hs) (handshakers s') = map Some hs \<and>
     count s' = length hs + 1"
proof -
  obtain s where s: "run (map Add hs) grpc_handshake_manager_create = Inr s" "added s hs"
    using run_adds by blast
  from add_added [OF s(2), of h] obtain s' where s':
    "grpc_handshake_manager_add h s = Inr s'" "added s' (hs @ [h])"
    "trace s' = trace s @
            (if realloc_count_of (length hs) > 0 then [Gpr_realloc (realloc_count_of (length hs))]
             else [])"
    "length (handshakers s') =
            (if realloc_count_of (length hs) > 0 then realloc_count_of (length hs)
             else length (handshakers s))"
    "length hs < length (handshakers s')" "handshakers s' ! length hs = Some h"
    by blast
  from s(2) have c: "count s = length hs" by (simp add: added_def registered_in_count)
  from s'(2) have r: "registered_in s' (hs @ [h])" by (simp add: added_def)
  from registered_in_count [OF r] have c': "count s' = length hs + 1" by simp
  from registered_in_take [OF r] have "take (length hs) (take (length hs + 1) (handshakers s')) =
      take (length hs) (map Some (hs @ [h]))" by simp
  then have t: "take (length hs) (handshakers s') = map Some hs" by simp
  have rc: "realloc_count_of (length hs) > 0 \<longleftrightarrow>
      length hs = 0 \<or> 2 \<le> length hs \<and> (\<exists>k. length hs = 2 ^ k)"
    by (simp add: realloc_count_of_cases)
  show ?thesis
    apply (rule exI [of _ s], rule exI [of _ s'])
    using s(1) c s'(1,5,6) t c' s'(3,4) rc
    apply (simp only: realloc_count_of_cases [of "length hs"] split: if_splits)
    apply auto
    done
qed

theorem add_growth_schedule_witness:
  "\<exists>s s'. run (map Add [11, 12]) grpc_handshake_manager_create = Inr s \<and>
     count s = length [11, 12 :: nat] \<and>
     grpc_handshake_manager_add 13 s = Inr s' \<and>
     trace s' = trace s @
       (if length [11, 12 :: nat] = 0 then [Gpr_realloc 2]
        else if 2 \<le> length [11, 12 :: nat] \<and> (\<exists>k. length [11, 12 :: nat] = 2 ^ k)
          then [Gpr_realloc (2 * length [11, 12 :: nat])]
        else []) \<and>
     length (handshakers s') =
       (if length [11, 12 :: nat] = 0 then 2
        else if 2 \<le> length [11, 12 :: nat] \<and> (\<exists>k. length [11, 12 :: nat] = 2 ^ k)
          then 2 * length [11, 12 :: nat]
        else length (handshakers s)) \<and>
     length [11, 12 :: nat] < length (handshakers s') \<and>
     handshakers s' ! length [11, 12 :: nat] = Some 13 \<and>
     take (length [11, 12 :: nat]) (handshakers s') = map Some [11, 12] \<and>
     count s' = length [11, 12 :: nat] + 1"
  by (rule add_growth_schedule)

text \<open>
  C10. After any sequence of adds on a fresh manager no add has written outside the array:
  the count is at most the capacity, the capacity is 2 after one add and the least power
  of two that is at least the count from two adds on, and the next add writes inside the
  array too; at count 1 it does so without reallocating.
\<close>

theorem add_within_capacity:
  "\<exists>s. run (map Add hs) grpc_handshake_manager_create = Inr s \<and>
     count s = length hs \<and> count s \<le> length (handshakers s) \<and>
     (length hs = 1 \<longrightarrow> length (handshakers s) = 2) \<and>
     (2 \<le> length hs \<longrightarrow>
        (\<exists>k. length (handshakers s) = 2 ^ k) \<and>
        (\<forall>j. length hs \<le> 2 ^ j \<longrightarrow> length (handshakers s) \<le> 2 ^ j)) \<and>
     (\<exists>s'. grpc_handshake_manager_add h s = Inr s' \<and> length hs < length (handshakers s') \<and>
        (length hs = 1 \<longrightarrow> handshakers s' = (handshakers s)[1 := Some h] \<and> trace s' = trace s))"
proof -
  obtain s where s: "run (map Add hs) grpc_handshake_manager_create = Inr s" "added s hs"
    using run_adds by blast
  then have r: "registered_in s hs" and c: "cap_ok (length hs) (length (handshakers s))"
    and f: "\<not> freed s"
    by (simp_all add: added_def)
  from r have n: "count s = length hs" by (rule registered_in_count)
  have le: "count s \<le> length (handshakers s)" using registered_in_le [OF r] n by simp
  have one: "length hs = 1 \<longrightarrow> length (handshakers s) = 2" using c by (auto simp: cap_ok_def)
  have least: "2 \<le> length hs \<longrightarrow>
        (\<exists>k. length (handshakers s) = 2 ^ k) \<and>
        (\<forall>j. length hs \<le> 2 ^ j \<longrightarrow> length (handshakers s) \<le> 2 ^ j)"
  proof (intro impI conjI allI)
    assume "2 \<le> length hs"
    with c obtain k where k: "length (handshakers s) = 2 ^ k" "length (handshakers s) < 2 * length hs"
      by (auto simp: cap_ok_def)
    then show "\<exists>k. length (handshakers s) = 2 ^ k" by blast
    fix j assume "length hs \<le> 2 ^ j"
    with k have "(2::nat) ^ k < 2 ^ Suc j" by simp
    then have "k < Suc j" using power_less_imp_less_exp [of 2 k "Suc j"] by simp
    then have "(2::nat) ^ k \<le> 2 ^ j" by (simp add: power_increasing)
    with k show "length (handshakers s) \<le> 2 ^ j" by simp
  qed
  from add_added [OF s(2), of h] obtain s' where s':
    "grpc_handshake_manager_add h s = Inr s'" "length hs < length (handshakers s')"
    by blast
  have "length hs = 1 \<longrightarrow> handshakers s' = (handshakers s)[1 := Some h] \<and> trace s' = trace s"
  proof
    assume l: "length hs = 1"
    then have "realloc_count_of (count s) = 0" using n by (simp add: realloc_count_of_def)
    moreover have "count s < length (handshakers s)" using l n one by simp
    ultimately have "grpc_handshake_manager_add h s =
           Inr (s\<lparr>mu := Mu_unlocked, handshakers := (handshakers s)[count s := Some h],
                  count := count s + 1\<rparr>)"
      using f by (intro add_no_realloc) simp_all
    with s'(1) l n show "handshakers s' = (handshakers s)[1 := Some h] \<and> trace s' = trace s"
      by auto
  qed
  with s(1) n le one least s' show ?thesis by blast
qed

theorem add_within_capacity_witness:
  "\<exists>s. run (map Add [11]) grpc_handshake_manager_create = Inr s \<and>
     count s = length [11 :: nat] \<and> count s \<le> length (handshakers s) \<and>
     (length [11 :: nat] = 1 \<longrightarrow> length (handshakers s) = 2) \<and>
     (2 \<le> length [11 :: nat] \<longrightarrow>
        (\<exists>k. length (handshakers s) = 2 ^ k) \<and>
        (\<forall>j. length [11 :: nat] \<le> 2 ^ j \<longrightarrow> length (handshakers s) \<le> 2 ^ j)) \<and>
     (\<exists>s'. grpc_handshake_manager_add 12 s = Inr s' \<and>
        length [11 :: nat] < length (handshakers s') \<and>
        (length [11 :: nat] = 1 \<longrightarrow>
           handshakers s' = (handshakers s)[1 := Some 12] \<and> trace s' = trace s))"
  by (rule add_within_capacity)

text \<open>
  C7. On a live manager holding the handshakers \<open>hs\<close>, whatever the cursor, shutdown calls
  the shutdown operation of every handshaker of \<open>hs\<close> in registration order and changes
  nothing else: the state afterwards is the state before with these calls appended to the
  trace and the lock released.
\<close>

theorem shutdown_broadcast_frame:
  assumes "\<not> freed s" and "registered_in s hs"
  shows "grpc_handshake_manager_shutdown s =
           Inr (s\<lparr>mu := Mu_unlocked, trace := trace s @ map Handshaker_shutdown hs\<rparr>)"
  using assms by (rule shutdown_registered)

theorem shutdown_broadcast_frame_witness:
  "\<not> freed example_manager \<and> registered_in example_manager [11, 12, 13] \<and>
   grpc_handshake_manager_shutdown example_manager =
     Inr (example_manager\<lparr>mu := Mu_unlocked,
            trace := [Handshaker_shutdown 11, Handshaker_shutdown 12, Handshaker_shutdown 13]\<rparr>)"
proof -
  have f: "\<not> freed example_manager"
    by (simp add: example_manager_def grpc_handshake_manager_create_def)
  have r: "registered_in example_manager [11, 12, 13]"
    by (simp add: example_manager_def grpc_handshake_manager_create_def registered_in_def
        holds_prefix_def)
  have t: "trace example_manager = []"
    by (simp add: example_manager_def grpc_handshake_manager_create_def)
  from shutdown_broadcast_frame [OF f r] f r t show ?thesis by simp
qed

text \<open>
  C4. The timeout callback on a live manager: the handshakers are shut down exactly when
  the error is \<open>GRPC_ERROR_NONE\<close> (the timer fired); in both cases the count drops by one
  (and the manager is destroyed if that was the last reference); no terminal callback is
  queued, no handshaker is started, cursor, count and args stay as they were.
\<close>

theorem on_timeout_shutdown_iff_fired:
  assumes "\<not> freed s" and "registered_in s hs"
  shows "\<exists>s'. on_timeout e s = Inr s' \<and> refs s' = refs s - 1 \<and>
     trace s' = trace s @ (if e = GRPC_ERROR_NONE then map Handshaker_shutdown hs else []) @
       (if refs s = 1
        then map Handshaker_destroy hs @ [Gpr_free_handshakers, Gpr_mu_destroy, Gpr_free_mgr]
        else []) \<and>
     terminal_calls (trace s') = terminal_calls (trace s) \<and>
     started (trace s') = started (trace s) \<and>
     index s' = index s \<and> count s' = count s \<and> hs_args s' = hs_args s \<and>
     freed s' = (refs s = 1)"
proof (cases "refs s = 1")
  case True
  from on_timeout_last [OF assms True, of e] True show ?thesis by simp
next
  case False
  from on_timeout_keep [OF assms False, of e] False assms(1) show ?thesis by simp
qed

theorem on_timeout_shutdown_iff_fired_witness:
  "\<not> freed example_manager \<and> registered_in example_manager [11, 12, 13] \<and>
   (\<exists>s'. on_timeout GRPC_ERROR_NONE example_manager = Inr s' \<and> refs s' = 2 \<and>
      trace s' = [Handshaker_shutdown 11, Handshaker_shutdown 12, Handshaker_shutdown 13]) \<and>
   (\<exists>s'. on_timeout (GRPC_ERROR ''Cancelled'') example_manager = Inr s' \<and> refs s' = 2 \<and>
      trace s' = [])"
proof -
  have f: "\<not> freed example_manager"
    by (simp add: example_manager_def grpc_handshake_manager_create_def)
  have r: "registered_in example_manager [11, 12, 13]"
    by (simp add: example_manager_def grpc_handshake_manager_create_def registered_in_def
        holds_prefix_def)
  have t: "trace example_manager = []" "refs example_manager = 3"
    by (simp_all add: example_manager_def grpc_handshake_manager_create_def)
  from on_timeout_shutdown_iff_fired [OF f r, of GRPC_ERROR_NONE]
    on_timeout_shutdown_iff_fired [OF f r, of "GRPC_ERROR ''Cancelled''"] f r t
  show ?thesis by auto
qed

text \<open>
  C8. With no handshaker registered, do_handshake arms the timer, cancels it and queues the
  terminal callback with \<open>GRPC_ERROR_NONE\<close>, in this order and nothing else; the args hold
  the caller's endpoint and user_data.
\<close>

theorem zero_handshakers_immediate_terminal:
  assumes "\<not> freed s" and "count s = 0" and "index s = 0" and "1 \<le> refs s"
  shows "\<exists>s'. grpc_handshake_manager_do_handshake ep ca d acc f ud s = Inr s' \<and>
     trace s' = trace s @ [Timer_init d timeout_closure, Timer_cancel,
        Exec_ctx_sched (done_closure f) GRPC_ERROR_NONE (new_args ep ca ud)] \<and>
     deadline_timer s' = Timer_cancelled \<and>
     hs_args s' = Some (new_args ep ca ud) \<and> endpoint (new_args ep ca ud) = ep \<and>
     refs s' = refs s + 1 \<and> index s' = 0 \<and> count s' = 0 \<and> \<not> freed s'"
proof -
  from assms(4) have "refs s \<noteq> - 1" by simp
  from do_handshake_empty [OF assms(1,3,2) this, of ep ca d acc f ud] assms show ?thesis
    by (simp add: new_args_def)
qed

theorem zero_handshakers_immediate_terminal_witness:
  "\<not> freed grpc_handshake_manager_create \<and> count grpc_handshake_manager_create = 0 \<and>
   index grpc_handshake_manager_create = 0 \<and> 1 \<le> refs grpc_handshake_manager_create \<and>
   (\<exists>s'. grpc_handshake_manager_do_handshake (Ptr 1) [(''k'', ''v'')] 5 NULL (Cb_user 2) (Ptr 3)
            grpc_handshake_manager_create = Inr s' \<and>
      trace s' = [Timer_init 5 timeout_closure, Timer_cancel,
        Exec_ctx_sched (done_closure (Cb_user 2)) GRPC_ERROR_NONE
          \<lparr>endpoint = Ptr 1, args = [(''k'', ''v'')], read_buffer = [], user_data = Ptr 3\<rparr>])"
proof -
  have h: "\<not> freed grpc_handshake_manager_create" "count grpc_handshake_manager_create = 0"
    "index grpc_handshake_manager_create = 0" "1 \<le> refs grpc_handshake_manager_create"
    "trace grpc_handshake_manager_create = []"
    by (simp_all add: grpc_handshake_manager_create_def)
  from zero_handshakers_immediate_terminal
      [OF h(1-4), of "Ptr 1" "[(''k'', ''v'')]" 5 NULL "Cb_user 2" "Ptr 3"] h
  show ?thesis by (auto simp: new_args_def)
qed

text \<open>
  C1. Register any handshakers \<open>hs\<close> on a fresh manager, call do_handshake once and let
  every handshaker report \<open>GRPC_ERROR_NONE\<close> to the advance closure. From the call of
  do_handshake on, the manager arms the timer, starts each handshaker of \<open>hs\<close> once and in
  registration order, cancels the timer and queues the terminal callback once, with
  \<open>GRPC_ERROR_NONE\<close>; nothing was started or queued before.
\<close>

theorem all_succeed_runs_in_order_then_terminal:
  "\<exists>s0 s'. run (map Add hs) grpc_handshake_manager_create = Inr s0 \<and>
     run (Do_handshake ep ca d acc f ud #
          replicate (length hs) (Call_next_handshaker GRPC_ERROR_NONE)) s0 = Inr s' \<and>
     trace s' = trace s0 @ Timer_init d timeout_closure #
       map (\<lambda>h. Handshaker_do_handshake h acc advance_closure Args_ptr) hs @
       [Timer_cancel, Exec_ctx_sched (done_closure f) GRPC_ERROR_NONE (new_args ep ca ud)] \<and>
     started (trace s') = hs \<and>
     terminal_calls (trace s') = [(done_closure f, GRPC_ERROR_NONE, new_args ep ca ud)]"
proof -
  obtain s0 where s0: "run (map Add hs) grpc_handshake_manager_create = Inr s0" "added s0 hs"
    using run_adds by blast
  then have f: "\<not> freed s0" and r: "registered_in s0 hs" and i: "index s0 = 0"
    and c: "refs s0 \<noteq> - 1" and t: "started (trace s0) = []" "terminal_calls (trace s0) = []"
    by (simp_all add: added_def)
  let ?call = "Call_next_handshaker GRPC_ERROR_NONE"
  show ?thesis
  proof (cases "hs = []")
    case True
    with r have "count s0 = 0" by (simp add: registered_in_count)
    from do_handshake_empty [OF f i this c, of ep ca d acc f ud] s0(1) t True
    show ?thesis by simp
  next
    case False
    then have k: "1 \<le> length hs" "length hs \<le> length hs" by (cases hs, simp_all)
    have e: "GRPC_ERROR_NONE \<noteq> GRPC_ERROR_NONE \<or> length hs = length hs" by simp
    have "replicate (length hs - 1) ?call @ [?call] = replicate (length hs) ?call"
      using k by (cases "length hs") (simp_all add: replicate_append_same)
    with chain_from_start [OF f r i c k e, of ep ca d acc f ud] s0(1) t
    show ?thesis by simp
  qed
qed

theorem all_succeed_runs_in_order_then_terminal_witness:
  "\<exists>s0 s'. run (map Add [11, 12, 13]) grpc_handshake_manager_create = Inr s0 \<and>
     run (Do_handshake (Ptr 1) [] 5 NULL (Cb_user 2) (Ptr 3) #
          replicate (length [11, 12, 13 :: nat]) (Call_next_handshaker GRPC_ERROR_NONE)) s0 =
       Inr s' \<and>
     trace s' = trace s0 @ Timer_init 5 timeout_closure #
       map (\<lambda>h. Handshaker_do_handshake h NULL advance_closure Args_ptr) [11, 12, 13] @
       [Timer_cancel,
        Exec_ctx_sched (done_closure (Cb_user 2)) GRPC_ERROR_NONE
          (new_args (Ptr 1) [] (Ptr 3))] \<and>
     started (trace s') = [11, 12, 13] \<and>
     terminal_calls (trace s') =
       [(done_closure (Cb_user 2), GRPC_ERROR_NONE, new_args (Ptr 1) [] (Ptr 3))]"
  by (rule all_succeed_runs_in_order_then_terminal)








text \<open>
  C3. Take any sequence of calls on a fresh manager in which the caller, the handshakers
  and the timer follow their rules (\<open>conforms\<close>). If it ends without a fault, the count is
  the number of owners that have not let go (the caller, each armed timer whose callback
  has not run, the running chain), it is zero exactly when the manager has been freed, and
  the destruction actions (destroy of every registered handshaker in registration order,
  free of the array, destroy of the lock, free of the manager) have happened once if the
  count is zero and not at all otherwise. The only fault is the one of the chain letting go
  last: the caller has destroyed, the timer callbacks have run, the count is 1 and nothing
  has been destroyed; the report then drives \<open>call_next_handshaker_locked\<close> to queue the
  terminal callback, bring the count to 0 and perform the same destruction actions, once,
  and \<open>call_next_handshaker\<close> faults afterwards when it unlocks the freed manager.
  Along a handshake in the usual order the count is 1 after the adds; do_handshake arms the
  timer and takes two more (the chain's one is given back at once when there is no
  handshaker); the last report of the chain leaves 2, the timeout callback, fired or
  cancelled, leaves 1, and the caller's destroy brings the count to 0 and performs the
  destruction.
\<close>

theorem refcount_owners_and_single_destruction:
  assumes "conforms [] cs grpc_handshake_manager_create" and "length rs = length hs"
  shows "(case run cs grpc_handshake_manager_create of
            Inr s \<Rightarrow> refs s = owners cs s \<and> (freed s \<longleftrightarrow> refs s = 0) \<and>
              destructions (trace s) =
                (if refs s = 0 then destruction_of (added_by cs) else [])
          | Inl f \<Rightarrow> f = Use_after_free \<and>
              (\<exists>pre e rest t t' a.
                 cs = pre @ Call_next_handshaker e # rest \<and>
                 run pre grpc_handshake_manager_create = Inr t \<and>
                 \<not> freed t \<and> refs t = 1 \<and> owners pre t = 1 \<and> Destroy \<in> set pre \<and>
                 destructions (trace t) = [] \<and>
                 call_next_handshaker_locked e (t\<lparr>mu := Mu_locked\<rparr>) = Inr t' \<and>
                 freed t' \<and> refs t' = 0 \<and>
                 trace t' = trace t @
                   [Timer_cancel, Exec_ctx_sched (on_handshake_done t) e a] @
                   destruction_of (added_by pre))) \<and>
         (\<exists>s0 s1 s2 s3 s4.
            run (map Add hs) grpc_handshake_manager_create = Inr s0 \<and> refs s0 = 1 \<and>
            grpc_handshake_manager_do_handshake ep ca d acc f ud s0 = Inr s1 \<and>
            refs s1 = (if hs = [] then 2 else 3) \<and>
            trace s1 = trace s0 @ Timer_init d timeout_closure #
              (if hs = []
               then [Timer_cancel,
                     Exec_ctx_sched (done_closure f) GRPC_ERROR_NONE (new_args ep ca ud)]
               else [Handshaker_do_handshake (hd hs) acc advance_closure Args_ptr]) \<and>
            run (map Call_next_handshaker (reports rs)) s1 = Inr s2 \<and> refs s2 = 2 \<and>
            terminal_calls (trace s2) = [(done_closure f, outcome rs, new_args ep ca ud)] \<and>
            on_timeout te s2 = Inr s3 \<and> refs s3 = 1 \<and>
            grpc_handshake_manager_destroy s3 = Inr s4 \<and> refs s4 = 0 \<and> freed s4 \<and>
            destructions (trace s3) = [] \<and>
            trace s4 = trace s3 @ destruction_of hs)"
proof -
  have a: "case run cs grpc_handshake_manager_create of
            Inr s \<Rightarrow> refs s = owners cs s \<and> (freed s \<longleftrightarrow> refs s = 0) \<and>
              destructions (trace s) =
                (if refs s = 0 then destruction_of (added_by cs) else [])
          | Inl f \<Rightarrow> f = Use_after_free \<and>
              (\<exists>pre e rest t t' a.
                 cs = pre @ Call_next_handshaker e # rest \<and>
                 run pre grpc_handshake_manager_create = Inr t \<and>
                 \<not> freed t \<and> refs t = 1 \<and> owners pre t = 1 \<and> Destroy \<in> set pre \<and>
                 destructions (trace t) = [] \<and>
                 call_next_handshaker_locked e (t\<lparr>mu := Mu_locked\<rparr>) = Inr t' \<and>
                 freed t' \<and> refs t' = 0 \<and>
                 trace t' = trace t @
                   [Timer_cancel, Exec_ctx_sched (on_handshake_done t) e a] @
                   destruction_of (added_by pre))"
    using acct_run [OF acct_create assms(1)]
  proof
    assume "\<exists>s'. run cs grpc_handshake_manager_create = Inr s' \<and>
      (acct ([] @ cs) s' \<or> finished ([] @ cs) s')"
    then obtain s' where s': "run cs grpc_handshake_manager_create = Inr s'"
      "acct cs s' \<or> finished cs s'" by auto
    from s'(2) have "refs s' = owners cs s' \<and> (freed s' \<longleftrightarrow> refs s' = 0) \<and>
              destructions (trace s') =
                (if refs s' = 0 then destruction_of (added_by cs) else [])"
    proof
      assume "acct cs s'"
      then show ?thesis by (simp add: acct_def)
    next
      assume "finished cs s'"
      then show ?thesis by (simp add: finished_def owners_def)
    qed
    with s'(1) show ?thesis by simp
  next
    assume "run cs grpc_handshake_manager_create = Inl Use_after_free \<and>
             (\<exists>pre e rest t. cs = pre @ Call_next_handshaker e # rest \<and>
                run pre grpc_handshake_manager_create = Inr t \<and> chain_last ([] @ pre) t e)"
    then obtain pre e rest t where p: "run cs grpc_handshake_manager_create = Inl Use_after_free"
      "cs = pre @ Call_next_handshaker e # rest"
      "run pre grpc_handshake_manager_create = Inr t" "chain_last pre t e"
      by auto
    from p(4) obtain t' x where q: "\<not> freed t" "refs t = 1" "owners pre t = 1"
      "Destroy \<in> set pre" "destructions (trace t) = []"
      "call_next_handshaker_locked e (t\<lparr>mu := Mu_locked\<rparr>) = Inr t'"
      "freed t'" "refs t' = 0"
      "trace t' = trace t @ [Timer_cancel, Exec_ctx_sched (on_handshake_done t) e x] @
         destruction_of (added_by pre)"
      unfolding chain_last_def by blast
    from p(2,3) q have "\<exists>pre e rest t t' a.
                 cs = pre @ Call_next_handshaker e # rest \<and>
                 run pre grpc_handshake_manager_create = Inr t \<and>
                 \<not> freed t \<and> refs t = 1 \<and> owners pre t = 1 \<and> Destroy \<in> set pre \<and>
                 destructions (trace t) = [] \<and>
                 call_next_handshaker_locked e (t\<lparr>mu := Mu_locked\<rparr>) = Inr t' \<and>
                 freed t' \<and> refs t' = 0 \<and>
                 trace t' = trace t @
                   [Timer_cancel, Exec_ctx_sched (on_handshake_done t) e a] @
                   destruction_of (added_by pre)"
      by blast
    with p(1) show ?thesis by simp
  qed
  obtain s0 where s0: "run (map Add hs) grpc_handshake_manager_create = Inr s0" "added s0 hs"
    using run_adds by blast
  then have f: "\<not> freed s0" and r: "registered_in s0 hs" and i: "index s0 = 0"
    and c: "refs s0 = 1" and t: "terminal_calls (trace s0) = []"
    by (simp_all add: added_def)
  from run_inv [OF inv_create, of "map Add hs"] s0(1) f
  have d0: "destructions (trace s0) = []" by (simp add: inv_def)
  let ?s2 = "s0\<lparr>mu := Mu_unlocked, refs := refs s0 + 1, index := length (reports rs),
            mgr_call_next_handshaker := advance_closure,
            acceptor := acc, deadline_timer := Timer_cancelled,
            on_handshake_done := done_closure f, mgr_user_data := ud,
            hs_args := Some (new_args ep ca ud),
            trace := trace s0 @ Timer_init d timeout_closure #
              map (\<lambda>h. Handshaker_do_handshake h acc advance_closure Args_ptr)
                (take (length (reports rs)) hs) @
              [Timer_cancel, Exec_ctx_sched (done_closure f) (outcome rs) (new_args ep ca ud)]\<rparr>"
  from c have c1: "1 \<le> refs s0" by simp
  note whole = chain_outcome [OF f r i c1 assms(2), of ep ca d acc f ud]
  have "\<exists>s1. grpc_handshake_manager_do_handshake ep ca d acc f ud s0 = Inr s1 \<and>
      refs s1 = (if hs = [] then 2 else 3) \<and>
      trace s1 = trace s0 @ Timer_init d timeout_closure #
              (if hs = []
               then [Timer_cancel,
                     Exec_ctx_sched (done_closure f) GRPC_ERROR_NONE (new_args ep ca ud)]
               else [Handshaker_do_handshake (hd hs) acc advance_closure Args_ptr])"
  proof (cases "hs = []")
    case True
    with r have z: "count s0 = 0" by (simp add: registered_in_count)
    from c have "refs s0 \<noteq> - 1" by simp
    from do_handshake_empty [OF f i z this, of ep ca d acc f ud] c True show ?thesis by simp
  next
    case False
    from do_handshake_start [OF f i r False, of ep ca d acc f ud] c False show ?thesis by simp
  qed
  then obtain s1 where s1: "grpc_handshake_manager_do_handshake ep ca d acc f ud s0 = Inr s1"
    "refs s1 = (if hs = [] then 2 else 3)"
    "trace s1 = trace s0 @ Timer_init d timeout_closure #
              (if hs = []
               then [Timer_cancel,
                     Exec_ctx_sched (done_closure f) GRPC_ERROR_NONE (new_args ep ca ud)]
               else [Handshaker_do_handshake (hd hs) acc advance_closure Args_ptr])"
    by blast
  with whole have s2: "run (map Call_next_handshaker (reports rs)) s1 = Inr ?s2" by simp
  have f2: "\<not> freed ?s2" and r2: "registered_in ?s2 hs" and c2: "refs ?s2 \<noteq> 1"
    using f r c by (simp_all add: registered_in_def)
  have t2: "terminal_calls (trace ?s2) = [(done_closure f, outcome rs, new_args ep ca ud)]"
    using t by simp
  let ?s3 = "?s2\<lparr>mu := (if te = GRPC_ERROR_NONE then Mu_unlocked else mu ?s2),
            refs := refs ?s2 - 1,
            trace := trace ?s2 @ (if te = GRPC_ERROR_NONE then map Handshaker_shutdown hs else [])\<rparr>"
  note s3 = on_timeout_keep [OF f2 r2 c2, of te]
  have f3: "\<not> freed ?s3" and c3: "refs ?s3 = 1" and r3: "registered_in ?s3 hs"
    using f r c by (simp_all add: registered_in_def)
  from unref_last [OF f3 c3 r3]
  have s4: "\<exists>s4. grpc_handshake_manager_destroy ?s3 = Inr s4 \<and> refs s4 = 0 \<and> freed s4 \<and>
      trace s4 = trace ?s3 @ destruction_of hs"
    by (simp add: grpc_handshake_manager_destroy_def destruction_of_def)
  have d3: "destructions (trace ?s3) = []" using d0 by simp
  have c2': "refs ?s2 = 2" using c by simp
  from s0(1) c s1 s2 c2' t2 s3 c3 s4 d3
  have "\<exists>s0 s1 s2 s3 s4.
            run (map Add hs) grpc_handshake_manager_create = Inr s0 \<and> refs s0 = 1 \<and>
            grpc_handshake_manager_do_handshake ep ca d acc f ud s0 = Inr s1 \<and>
            refs s1 = (if hs = [] then 2 else 3) \<and>
            trace s1 = trace s0 @ Timer_init d timeout_closure #
              (if hs = []
               then [Timer_cancel,
                     Exec_ctx_sched (done_closure f) GRPC_ERROR_NONE (new_args ep ca ud)]
               else [Handshaker_do_handshake (hd hs) acc advance_closure Args_ptr]) \<and>
            run (map Call_next_handshaker (reports rs)) s1 = Inr s2 \<and> refs s2 = 2 \<and>
            terminal_calls (trace s2) = [(done_closure f, outcome rs, new_args ep ca ud)] \<and>
            on_timeout te s2 = Inr s3 \<and> refs s3 = 1 \<and>
            grpc_handshake_manager_destroy s3 = Inr s4 \<and> refs s4 = 0 \<and> freed s4 \<and>
            destructions (trace s3) = [] \<and>
            trace s4 = trace s3 @ destruction_of hs"
    by blast
  with a show ?thesis by (rule conjI)
qed

theorem refcount_owners_and_single_destruction_witness:
  "conforms []
     [Add 11, Add 12, Do_handshake (Ptr 1) [] 5 NULL (Cb_user 2) (Ptr 3), Destroy,
      On_timeout GRPC_ERROR_NONE, Call_next_handshaker (GRPC_ERROR ''shutdown'')]
     grpc_handshake_manager_create \<and>
   length [GRPC_ERROR_NONE, GRPC_ERROR ''negotiation_failed''] = length [11, 12 :: nat] \<and>
   run [Add 11, Add 12, Do_handshake (Ptr 1) [] 5 NULL (Cb_user 2) (Ptr 3), Destroy,
        On_timeout GRPC_ERROR_NONE, Call_next_handshaker (GRPC_ERROR ''shutdown'')]
     grpc_handshake_manager_create = Inl Use_after_free \<and>
   (case run [Add 11, Add 12, Do_handshake (Ptr 1) [] 5 NULL (Cb_user 2) (Ptr 3), Destroy,
              On_timeout GRPC_ERROR_NONE, Call_next_handshaker (GRPC_ERROR ''shutdown'')]
           grpc_handshake_manager_create of
      Inr s \<Rightarrow>
        refs s =
          owners [Add 11, Add 12, Do_handshake (Ptr 1) [] 5 NULL (Cb_user 2) (Ptr 3), Destroy,
                  On_timeout GRPC_ERROR_NONE, Call_next_handshaker (GRPC_ERROR ''shutdown'')] s \<and>
        (freed s \<longleftrightarrow> refs s = 0) \<and>
        destructions (trace s) =
          (if refs s = 0
           then destruction_of
                  (added_by
                     [Add 11, Add 12, Do_handshake (Ptr 1) [] 5 NULL (Cb_user 2) (Ptr 3),
                      Destroy, On_timeout GRPC_ERROR_NONE,
                      Call_next_handshaker (GRPC_ERROR ''shutdown'')])
           else [])
    | Inl f \<Rightarrow> f = Use_after_free \<and>
        (\<exists>pre e rest t t' a.
           [Add 11, Add 12, Do_handshake (Ptr 1) [] 5 NULL (Cb_user 2) (Ptr 3), Destroy,
            On_timeout GRPC_ERROR_NONE, Call_next_handshaker (GRPC_ERROR ''shutdown'')] =
             pre @ Call_next_handshaker e # rest \<and>
           run pre grpc_handshake_manager_create = Inr t \<and>
           \<not> freed t \<and> refs t = 1 \<and> owners pre t = 1 \<and> Destroy \<in> set pre \<and>
           destructions (trace t) = [] \<and>
           call_next_handshaker_locked e (t\<lparr>mu := Mu_locked\<rparr>) = Inr t' \<and>
           freed t' \<and> refs t' = 0 \<and>
           trace t' = trace t @
             [Timer_cancel, Exec_ctx_sched (on_handshake_done t) e a] @
             destruction_of (added_by pre))) \<and>
   (\<exists>s0 s1 s2 s3 s4.
      run (map Add [11, 12]) grpc_handshake_manager_create = Inr s0 \<and> refs s0 = 1 \<and>
      grpc_handshake_manager_do_handshake (Ptr 1) [] 5 NULL (Cb_user 2) (Ptr 3) s0 = Inr s1 \<and>
      refs s1 = (if [11, 12 :: nat] = [] then 2 else 3) \<and>
      trace s1 = trace s0 @ Timer_init 5 timeout_closure #
        (if [11, 12 :: nat] = []
         then [Timer_cancel,
               Exec_ctx_sched (done_closure (Cb_user 2)) GRPC_ERROR_NONE
                 (new_args (Ptr 1) [] (Ptr 3))]
         else [Handshaker_do_handshake (hd [11, 12]) NULL advance_closure Args_ptr]) \<and>
      run (map Call_next_handshaker
             (reports [GRPC_ERROR_NONE, GRPC_ERROR ''negotiation_failed''])) s1 = Inr s2 \<and>
      refs s2 = 2 \<and>
      terminal_calls (trace s2) =
        [(done_closure (Cb_user 2), outcome [GRPC_ERROR_NONE, GRPC_ERROR ''negotiation_failed''],
          new_args (Ptr 1) [] (Ptr 3))] \<and>
      on_timeout (GRPC_ERROR ''Cancelled'') s2 = Inr s3 \<and> refs s3 = 1 \<and>
      grpc_handshake_manager_destroy s3 = Inr s4 \<and> refs s4 = 0 \<and> freed s4 \<and>
      destructions (trace s3) = [] \<and>
      trace s4 = trace s3 @ destruction_of [11, 12])"
proof -
  have c: "conforms []
     [Add 11, Add 12, Do_handshake (Ptr 1) [] 5 NULL (Cb_user 2) (Ptr 3), Destroy,
      On_timeout GRPC_ERROR_NONE, Call_next_handshaker (GRPC_ERROR ''shutdown'')]
     grpc_handshake_manager_create"
    by code_simp
  have h: "length [GRPC_ERROR_NONE, GRPC_ERROR ''negotiation_failed''] = length [11, 12 :: nat]"
    by simp
  have r: "run [Add 11, Add 12, Do_handshake (Ptr 1) [] 5 NULL (Cb_user 2) (Ptr 3), Destroy,
        On_timeout GRPC_ERROR_NONE, Call_next_handshaker (GRPC_ERROR ''shutdown'')]
     grpc_handshake_manager_create = Inl Use_after_free"
    by code_simp
  from refcount_owners_and_single_destruction [OF c h,
      where ep = "Ptr 1" and ca = "[]" and d = 5 and acc = NULL and f = "Cb_user 2"
      and ud = "Ptr 3" and te = "GRPC_ERROR ''Cancelled''"]
  have "(case run [Add 11, Add 12, Do_handshake (Ptr 1) [] 5 NULL (Cb_user 2) (Ptr 3), Destroy,
              On_timeout GRPC_ERROR_NONE, Call_next_handshaker (GRPC_ERROR ''shutdown'')]
           grpc_handshake_manager_create of
      Inr s \<Rightarrow>
        refs s =
          owners [Add 11, Add 12, Do_handshake (Ptr 1) [] 5 NULL (Cb_user 2) (Ptr 3), Destroy,
                  On_timeout GRPC_ERROR_NONE, Call_next_handshaker (GRPC_ERROR ''shutdown'')] s \<and>
        (freed s \<longleftrightarrow> refs s = 0) \<and>
        destructions (trace s) =
          (if refs s = 0
           then destruction_of
                  (added_by
                     [Add 11, Add 12, Do_handshake (Ptr 1) [] 5 NULL (Cb_user 2) (Ptr 3),
                      Destroy, On_timeout GRPC_ERROR_NONE,
                      Call_next_handshaker (GRPC_ERROR ''shutdown'')])
           else [])
    | Inl f \<Rightarrow> f = Use_after_free \<and>
        (\<exists>pre e rest t t' a.
           [Add 11, Add 12, Do_handshake (Ptr 1) [] 5 NULL (Cb_user 2) (Ptr 3), Destroy,
            On_timeout GRPC_ERROR_NONE, Call_next_handshaker (GRPC_ERROR ''shutdown'')] =
             pre @ Call_next_handshaker e # rest \<and>
           run pre grpc_handshake_manager_create = Inr t \<and>
           \<not> freed t \<and> refs t = 1 \<and> owners pre t = 1 \<and> Destroy \<in> set pre \<and>
           destructions (trace t) = [] \<and>
           call_next_handshaker_locked e (t\<lparr>mu := Mu_locked\<rparr>) = Inr t' \<and>
           freed t' \<and> refs t' = 0 \<and>
           trace t' = trace t @
             [Timer_cancel, Exec_ctx_sched (on_handshake_done t) e a] @
             destruction_of (added_by pre))) \<and>
   (\<exists>s0 s1 s2 s3 s4.
      run (map Add [11, 12]) grpc_handshake_manager_create = Inr s0 \<and> refs s0 = 1 \<and>
      grpc_handshake_manager_do_handshake (Ptr 1) [] 5 NULL (Cb_user 2) (Ptr 3) s0 = Inr s1 \<and>
      refs s1 = (if [11, 12 :: nat] = [] then 2 else 3) \<and>
      trace s1 = trace s0 @ Timer_init 5 timeout_closure #
        (if [11, 12 :: nat] = []
         then [Timer_cancel,
               Exec_ctx_sched (done_closure (Cb_user 2)) GRPC_ERROR_NONE
                 (new_args (Ptr 1) [] (Ptr 3))]
         else [Handshaker_do_handshake (hd [11, 12]) NULL advance_closure Args_ptr]) \<and>
      run (map Call_next_handshaker
             (reports [GRPC_ERROR_NONE, GRPC_ERROR ''negotiation_failed''])) s1 = Inr s2 \<and>
      refs s2 = 2 \<and>
      terminal_calls (trace s2) =
        [(done_closure (Cb_user 2), outcome [GRPC_ERROR_NONE, GRPC_ERROR ''negotiation_failed''],
          new_args (Ptr 1) [] (Ptr 3))] \<and>
      on_timeout (GRPC_ERROR ''Cancelled'') s2 = Inr s3 \<and> refs s3 = 1 \<and>
      grpc_handshake_manager_destroy s3 = Inr s4 \<and> refs s4 = 0 \<and> freed s4 \<and>
      destructions (trace s3) = [] \<and>
      trace s4 = trace s3 @ destruction_of [11, 12])" .
  then show ?thesis by (rule conjI [OF c conjI [OF h conjI [OF r]]])
qed

end
